theory Spec2Isabelle
  imports Main "HOL-Library.FSet" "HOL-Library.Product_Lexorder"
begin

section \<open>Data model\<close>

text \<open>
  A cell is a Python tuple \<open>(i, j)\<close> of unbounded integers.  Python sets of cells are
  finite sets.  Where the source iterates over a set (\<open>for cell in copy_cells\<close>) the
  order is the hash-table order, which the language does not specify; the model walks the
  set in ascending order, and lemmas \<open>mms_step_any_order\<close>, \<open>new_sentence_any_order\<close> and
  \<open>add_knowledge_loops_any_order\<close> show that any other order gives the same result.
\<close>

type_synonym cell = "int \<times> int"

text \<open>Class \<open>Sentence\<close>: a set of cells and the number of them that are mines.\<close>

record Sentence =
  cells :: "cell fset"
  count :: int

text \<open>
  Sentences are objects that the knowledge list and the loop snapshots
  (\<open>copy_knowledge = self.knowledge.copy()\<close>, a shallow copy) share, and the methods
  mutate them in place.  The model keeps an explicit store: a reference is a natural
  number, \<open>heap\<close> maps a reference to the object's current fields, and the knowledge list
  holds references.
\<close>

type_synonym ref = nat

text \<open>Class \<open>MinesweeperAI\<close>.\<close>

record MinesweeperAI =
  height :: int
  width :: int
  moves_made :: "cell fset"
  mines :: "cell fset"
  safes :: "cell fset"
  knowledge :: "ref list"
  heap :: "ref \<Rightarrow> Sentence"

text \<open>\<open>MinesweeperAI.__init__\<close>\<close>

definition init :: "int \<Rightarrow> int \<Rightarrow> MinesweeperAI" where
  "init h w = \<lparr>height = h, width = w, moves_made = {||}, mines = {||}, safes = {||},
               knowledge = [], heap = (\<lambda>_. \<lparr>cells = {||}, count = 0\<rparr>)\<rparr>"

text \<open>\<open>len\<close> of a set, as a Python integer.\<close>

definition len :: "cell fset \<Rightarrow> int" where
  "len S = int (fcard S)"

section \<open>Class Sentence\<close>

text \<open>\<open>Sentence.__eq__\<close>; the class defines no \<open>__ne__\<close>, so \<open>!=\<close> is its negation.\<close>

definition Sentence_eq :: "Sentence \<Rightarrow> Sentence \<Rightarrow> bool" where
  "Sentence_eq a b \<longleftrightarrow> cells a = cells b \<and> count a = count b"

text \<open>\<open>Sentence.known_mines\<close>: the method falls off its end (returns \<open>None\<close>) otherwise.\<close>

definition known_mines :: "Sentence \<Rightarrow> cell fset option" where
  "known_mines s = (if len (cells s) = count s then Some (cells s) else None)"

text \<open>
  The comparison \<open>self.cells == 0\<close> of \<open>Sentence.known_safes\<close> has a set on the left and
  an integer on the right.  Neither \<open>set.__eq__\<close> nor \<open>int.__eq__\<close> accepts the other
  type, so Python falls back to object identity and the comparison is false.
\<close>

definition set_eq_int :: "cell fset \<Rightarrow> int \<Rightarrow> bool" where
  "set_eq_int S n = False"

definition known_safes :: "Sentence \<Rightarrow> cell fset option" where
  "known_safes s = (if set_eq_int (cells s) 0 then Some (cells s) else None)"

text \<open>\<open>Sentence.mark_mine\<close> and \<open>Sentence.mark_safe\<close>\<close>

definition Sentence_mark_mine :: "cell \<Rightarrow> Sentence \<Rightarrow> Sentence" where
  "Sentence_mark_mine c s =
     (if c |\<in>| cells s then s\<lparr>cells := cells s |-| {|c|}, count := count s - 1\<rparr> else s)"

definition Sentence_mark_safe :: "cell \<Rightarrow> Sentence \<Rightarrow> Sentence" where
  "Sentence_mark_safe c s =
     (if c |\<in>| cells s then s\<lparr>cells := cells s |-| {|c|}\<rparr> else s)"

section \<open>Class MinesweeperAI: recording a mine or a safe cell\<close>

text \<open>
  The first loop of \<open>mark_mine\<close> / \<open>mark_safe\<close>: each sentence of the snapshot is updated
  in place and, when its cell set is empty afterwards, appended to the list \<open>empty\<close>
  (\<open>empties\<close> in the model).
\<close>

definition mark_step ::
  "(Sentence \<Rightarrow> Sentence) \<Rightarrow> ref \<Rightarrow> (ref \<Rightarrow> Sentence) \<times> ref list \<Rightarrow> (ref \<Rightarrow> Sentence) \<times> ref list"
where
  "mark_step f r = (\<lambda>(h, empties).
     let h' = h(r := f (h r))
     in (h', if len (cells (h' r)) = 0 then empties @ [r] else empties))"

text \<open>
  \<open>list.remove(x)\<close> deletes the first element that is \<open>x\<close> itself or equal to it under
  \<open>__eq__\<close>, and raises \<open>ValueError\<close> when there is none: the result is \<open>None\<close> then.
\<close>

fun list_remove :: "(ref \<Rightarrow> Sentence) \<Rightarrow> ref \<Rightarrow> ref list \<Rightarrow> ref list option" where
  "list_remove h x [] = None"
| "list_remove h x (y # ys) =
     (if y = x \<or> Sentence_eq (h y) (h x) then Some ys
      else map_option ((#) y) (list_remove h x ys))"

text \<open>The second loop: \<open>for sentence in empty: self.knowledge.remove(sentence)\<close>.\<close>

fun remove_all :: "(ref \<Rightarrow> Sentence) \<Rightarrow> ref list \<Rightarrow> ref list \<Rightarrow> ref list option" where
  "remove_all h [] ks = Some ks"
| "remove_all h (x # xs) ks =
     (case list_remove h x ks of None \<Rightarrow> None | Some ks' \<Rightarrow> remove_all h xs ks')"

text \<open>
  The body shared by \<open>MinesweeperAI.mark_mine\<close> and \<open>MinesweeperAI.mark_safe\<close> after the
  cell has been added to its set: \<open>f\<close> is the sentence method applied to every sentence.
  Lemma \<open>mark_never_raises\<close> below shows that \<open>remove\<close> always finds its argument here,
  so the \<open>ValueError\<close> case is never taken; the model leaves the list as it is there.
\<close>

definition mark_sentences :: "(Sentence \<Rightarrow> Sentence) \<Rightarrow> MinesweeperAI \<Rightarrow> MinesweeperAI" where
  "mark_sentences f s =
     (case fold (mark_step f) (knowledge s) (heap s, []) of (h', empties) \<Rightarrow>
        (case remove_all h' empties (knowledge s) of
           Some ks' \<Rightarrow> s\<lparr>knowledge := ks', heap := h'\<rparr>
         | None \<Rightarrow> s\<lparr>heap := h'\<rparr>))"

definition mark_mine :: "cell \<Rightarrow> MinesweeperAI \<Rightarrow> MinesweeperAI" where
  "mark_mine c s = mark_sentences (Sentence_mark_mine c) (s\<lparr>mines := finsert c (mines s)\<rparr>)"

definition mark_safe :: "cell \<Rightarrow> MinesweeperAI \<Rightarrow> MinesweeperAI" where
  "mark_safe c s = mark_sentences (Sentence_mark_safe c) (s\<lparr>safes := finsert c (safes s)\<rparr>)"

section \<open>Direct resolution: \<open>mark_mines_safes\<close>\<close>

text \<open>
  One iteration of \<open>for sentence in copy_knowledge\<close>.  The test reads the sentence as it
  is now; \<open>copy_cells\<close> is a copy of its cell set taken before the inner loop runs.
\<close>

definition mms_step :: "ref \<Rightarrow> MinesweeperAI \<Rightarrow> MinesweeperAI" where
  "mms_step r s =
     (let sentence = heap s r in
      if len (cells sentence) = count sentence
      then fold mark_mine (sorted_list_of_fset (cells sentence)) s
      else if count sentence = 0
      then fold mark_safe (sorted_list_of_fset (cells sentence)) s
      else s)"

definition mark_mines_safes :: "MinesweeperAI \<Rightarrow> MinesweeperAI" where
  "mark_mines_safes s = fold mms_step (knowledge s) s"

section \<open>Subset resolution: \<open>draw_interferences\<close>\<close>

text \<open>
  The body of the two nested loops, for \<open>sentence1\<close> at \<open>r1\<close> and \<open>sentence2\<close> at \<open>r2\<close>.
  The two assignments are made one after the other on the object at \<open>r2\<close>.
\<close>

definition infer_pair ::
  "ref \<Rightarrow> ref \<Rightarrow> (ref \<Rightarrow> Sentence) \<times> bool \<Rightarrow> (ref \<Rightarrow> Sentence) \<times> bool"
where
  "infer_pair r1 r2 = (\<lambda>(h, drawn).
     if \<not> Sentence_eq (h r1) (h r2) \<and> len (cells (h r1)) \<noteq> 0 \<and> len (cells (h r2)) \<noteq> 0
     then
       if cells (h r1) |\<subseteq>| cells (h r2)
       then
         let h1 = h(r2 := (h r2)\<lparr>cells := cells (h r2) |-| cells (h r1)\<rparr>);
             h2 = h1(r2 := (h1 r2)\<lparr>count := count (h1 r2) - count (h1 r1)\<rparr>)
         in (h2, True)
       else (h, drawn)
     else (h, drawn))"

text \<open>The nested loops over the snapshot of the knowledge list.\<close>

definition infer_pairs :: "ref list \<Rightarrow> (ref \<Rightarrow> Sentence) \<times> bool \<Rightarrow> (ref \<Rightarrow> Sentence) \<times> bool" where
  "infer_pairs ks = fold (\<lambda>r1. fold (\<lambda>r2. infer_pair r1 r2) ks) ks"

text \<open>
  One pass of the \<open>while\<close> loop: \<open>drawn\<close> is reset, the nested loops run, then
  \<open>mark_mines_safes\<close>.  The result is the value of \<open>drawn\<close> and the new state.
\<close>

definition draw_pass :: "MinesweeperAI \<Rightarrow> bool \<times> MinesweeperAI" where
  "draw_pass s =
     (case infer_pairs (knowledge s) (heap s, False) of (h, drawn) \<Rightarrow>
        (drawn, mark_mines_safes (s\<lparr>heap := h\<rparr>)))"

text \<open>The total number of cell memberships over the sentences of the knowledge list.\<close>

definition total_cells :: "MinesweeperAI \<Rightarrow> nat" where
  "total_cells s = sum_list (map (\<lambda>r. fcard (cells (heap s r))) (knowledge s))"

text \<open>
  \<open>draw_interferences\<close>: \<open>drawn\<close> starts as \<open>True\<close>, so the body runs at least once, and
  the loop is left after the first pass that ends with \<open>drawn\<close> false.
\<close>

function draw_loop :: "MinesweeperAI \<Rightarrow> MinesweeperAI" where
  "draw_loop s = (case draw_pass s of (drawn, s') \<Rightarrow> if drawn then draw_loop s' else s')"
  by pat_completeness auto

definition draw_interferences :: "MinesweeperAI \<Rightarrow> MinesweeperAI" where
  "draw_interferences s = draw_loop s"

section \<open>Observation ingestion: \<open>add_knowledge\<close>\<close>

text \<open>The neighbours of \<open>cell\<close> inside the grid, as the two \<open>range\<close> loops collect them.\<close>

definition neighbor_cells :: "MinesweeperAI \<Rightarrow> cell \<Rightarrow> cell fset" where
  "neighbor_cells s cell = (case cell of (i, j) \<Rightarrow>
     fset_of_list
       (concat (map (\<lambda>row. concat (map (\<lambda>col.
          if 0 \<le> row \<and> row < height s \<and> 0 \<le> col \<and> col < width s \<and> (row, col) \<noteq> cell
          then [(row, col)] else []) [j - 1 .. j + 1])) [i - 1 .. i + 1])))"

text \<open>Python's \<open>a or b\<close> on sets: \<open>a\<close> when it is non-empty, \<open>b\<close> otherwise.\<close>

definition py_or :: "cell fset \<Rightarrow> cell fset \<Rightarrow> cell fset" where
  "py_or a b = (if a \<noteq> {||} then a else b)"

text \<open>
  One iteration of \<open>for neighbor in neighbor_cells\<close>, on the local variables \<open>cells\<close>
  and \<open>count\<close>.
\<close>

definition exclude_step :: "MinesweeperAI \<Rightarrow> cell \<Rightarrow> cell fset \<times> int \<Rightarrow> cell fset \<times> int" where
  "exclude_step s neighbor = (\<lambda>(cs, cnt).
     if neighbor |\<notin>| py_or (moves_made s) (py_or (mines s) (safes s))
     then (finsert neighbor cs, cnt)
     else if neighbor |\<in>| mines s then (cs, cnt - 1)
     else (cs, cnt))"

text \<open>
  The local \<open>cells\<close> and \<open>count\<close> after that loop, from which \<open>Sentence(cells, count)\<close>
  is built; \<open>s\<close> is the state after steps 1 and 2.
\<close>

definition new_sentence :: "MinesweeperAI \<Rightarrow> cell \<Rightarrow> int \<Rightarrow> cell fset \<times> int" where
  "new_sentence s cell cnt =
     fold (exclude_step s) (sorted_list_of_fset (neighbor_cells s cell)) ({||}, cnt)"

text \<open>
  A new object is distinct from every object that is still referenced: the reference of
  the new sentence is one that the knowledge list does not hold.
\<close>

definition fresh :: "ref list \<Rightarrow> ref" where
  "fresh ks = fold (\<lambda>r m. max (Suc r) m) ks 0"

definition add_knowledge :: "cell \<Rightarrow> int \<Rightarrow> MinesweeperAI \<Rightarrow> MinesweeperAI" where
  "add_knowledge cell cnt s0 =
     (let s1 = s0\<lparr>moves_made := finsert cell (moves_made s0)\<rparr>;
          s2 = mark_safe cell s1
      in case new_sentence s2 cell cnt of (cs, cnt') \<Rightarrow>
      let s3 = (if cnt' = 0
                then fold (\<lambda>neighbor s. mark_safe neighbor (s\<lparr>safes := finsert neighbor (safes s)\<rparr>))
                       (sorted_list_of_fset cs) s2
                else if len cs = cnt'
                then fold (\<lambda>neighbor s. mark_mine neighbor (s\<lparr>mines := finsert neighbor (mines s)\<rparr>))
                       (sorted_list_of_fset cs) s2
                else s2);
          r = fresh (knowledge s3);
          s4 = s3\<lparr>knowledge := knowledge s3 @ [r],
                  heap := (heap s3)(r := \<lparr>cells = cs, count = cnt'\<rparr>)\<rparr>;
          s5 = mark_mines_safes s4
      in draw_interferences s5)"

section \<open>Move selection\<close>

text \<open>
  \<open>set.pop()\<close> removes and returns an arbitrary element, and \<open>random.choice(seq)\<close> returns
  \<open>seq[k]\<close> for a random index \<open>k\<close> below \<open>len(seq)\<close>.  Both functions take the draw as
  an argument \<open>k\<close>, reduced modulo the number of candidates, so that every candidate is
  the result for some \<open>k\<close>.
\<close>

definition set_pop :: "nat \<Rightarrow> cell fset \<Rightarrow> cell" where
  "set_pop k S = sorted_list_of_fset S ! (k mod fcard S)"

definition random_choice :: "nat \<Rightarrow> cell list \<Rightarrow> cell" where
  "random_choice k xs = xs ! (k mod length xs)"

text \<open>
  Both selectors are methods of the engine; they return their result together with the
  engine state they leave behind.  \<open>pop\<close> acts on the local set \<open>safe_cells\<close>, which
  \<open>difference\<close> has created.
\<close>

definition make_safe_move :: "nat \<Rightarrow> MinesweeperAI \<Rightarrow> cell option \<times> MinesweeperAI" where
  "make_safe_move k s =
     (let safe_cells = safes s |-| moves_made s
      in if safe_cells = {||} then (None, s) else (Some (set_pop k safe_cells), s))"

definition candidate_cells :: "MinesweeperAI \<Rightarrow> cell list" where
  "candidate_cells s =
     concat (map (\<lambda>row. concat (map (\<lambda>col.
        if (row, col) |\<notin>| moves_made s \<and> (row, col) |\<notin>| mines s then [(row, col)] else [])
        [0 .. width s - 1])) [0 .. height s - 1])"

definition make_random_move :: "nat \<Rightarrow> MinesweeperAI \<Rightarrow> cell option \<times> MinesweeperAI" where
  "make_random_move k s =
     (let cells = candidate_cells s
      in if cells \<noteq> [] then (Some (random_choice k cells), s) else (None, s))"

section \<open>Vocabulary of the properties\<close>

text \<open>The sentences of the knowledge base, in list order.\<close>

definition sentences :: "MinesweeperAI \<Rightarrow> Sentence list" where
  "sentences s = map (heap s) (knowledge s)"

text \<open>The cells of the grid: \<open>0 \<le> row < height\<close> and \<open>0 \<le> column < width\<close>.\<close>

definition grid_cells :: "MinesweeperAI \<Rightarrow> cell fset" where
  "grid_cells s =
     fset_of_list (concat (map (\<lambda>row. map (\<lambda>col. (row, col)) [0 .. width s - 1]) [0 .. height s - 1]))"

text \<open>
  The store after the first loop of \<open>mark_mine\<close> / \<open>mark_safe\<close>: \<open>f\<close> has been applied to
  every sentence of the list \<open>ks\<close>.
\<close>

definition marked :: "(Sentence \<Rightarrow> Sentence) \<Rightarrow> ref list \<Rightarrow> (ref \<Rightarrow> Sentence) \<Rightarrow> ref \<Rightarrow> Sentence" where
  "marked f ks h = (\<lambda>r. if r \<in> set ks then f (h r) else h r)"

text \<open>The guard of the subset-resolution step, and the store after its two assignments.\<close>

definition applies :: "(ref \<Rightarrow> Sentence) \<Rightarrow> ref \<Rightarrow> ref \<Rightarrow> bool" where
  "applies h r1 r2 \<longleftrightarrow>
     \<not> Sentence_eq (h r1) (h r2) \<and> cells (h r1) \<noteq> {||} \<and> cells (h r2) \<noteq> {||}
     \<and> cells (h r1) |\<subseteq>| cells (h r2)"

definition resolved :: "(ref \<Rightarrow> Sentence) \<Rightarrow> ref \<Rightarrow> ref \<Rightarrow> (ref \<Rightarrow> Sentence)" where
  "resolved h r1 r2 =
     h(r2 := \<lparr>cells = cells (h r2) |-| cells (h r1), count = count (h r2) - count (h r1)\<rparr>)"

text \<open>
  Progress of the nested loops from \<open>x\<close> to \<open>y\<close> (a store and the flag \<open>drawn\<close>): no cell
  set has grown, and either nothing has changed or \<open>drawn\<close> is set and some sentence of
  \<open>ks\<close> has lost a cell.
\<close>

definition shrinks ::
  "ref list \<Rightarrow> (ref \<Rightarrow> Sentence) \<times> bool \<Rightarrow> (ref \<Rightarrow> Sentence) \<times> bool \<Rightarrow> bool" where
  "shrinks ks x y \<longleftrightarrow>
     (\<forall>r. fcard (cells (fst y r)) \<le> fcard (cells (fst x r))) \<and>
     (y = x \<or> (snd y \<and> (\<exists>r\<in>set ks. fcard (cells (fst y r)) < fcard (cells (fst x r)))))"

text \<open>
  A sentence is true for a placement \<open>M\<close> of the mines when its count is the number of
  its cells that lie in \<open>M\<close>.  An engine state is consistent with \<open>M\<close> when its known mines
  are in \<open>M\<close>, its known safe cells and its moves are not, and all its sentences are true.
\<close>

definition true_in :: "cell fset \<Rightarrow> Sentence \<Rightarrow> bool" where
  "true_in M x \<longleftrightarrow> count x = len (cells x |\<inter>| M)"

definition consistent :: "cell fset \<Rightarrow> MinesweeperAI \<Rightarrow> bool" where
  "consistent M s \<longleftrightarrow>
     mines s |\<subseteq>| M \<and> safes s |\<inter>| M = {||} \<and> moves_made s |\<inter>| M = {||}
     \<and> (\<forall>r\<in>set (knowledge s). true_in M (heap s r))"

text \<open>The bounds on a sentence: \<open>0 \<le> count \<le> |cells|\<close>.\<close>

definition count_in_range :: "Sentence \<Rightarrow> bool" where
  "count_in_range x \<longleftrightarrow> 0 \<le> count x \<and> count x \<le> len (cells x)"

text \<open>
  What every operation keeps: the grid dimensions and the moves made stay as they are
  (up to the operation's own first step), and the sets of known safe cells and known
  mines only grow.
\<close>

definition grows :: "MinesweeperAI \<Rightarrow> MinesweeperAI \<Rightarrow> bool" where
  "grows s s' \<longleftrightarrow>
     height s' = height s \<and> width s' = width s \<and> moves_made s' = moves_made s
     \<and> safes s |\<subseteq>| safes s' \<and> mines s |\<subseteq>| mines s'"

text \<open>
  A sentence of a loop's snapshot is either still in the knowledge list or has lost all
  its cells (the only sentences that \<open>mark_mine\<close> and \<open>mark_safe\<close> remove).
\<close>

definition live_or_empty :: "MinesweeperAI \<Rightarrow> ref \<Rightarrow> bool" where
  "live_or_empty s r \<longleftrightarrow> r \<in> set (knowledge s) \<or> cells (heap s r) = {||}"

text \<open>The engine state after \<open>n\<close> passes of the loop of \<open>draw_interferences\<close>.\<close>

fun passes :: "nat \<Rightarrow> MinesweeperAI \<Rightarrow> MinesweeperAI" where
  "passes 0 s = s"
| "passes (Suc n) s = passes n (snd (draw_pass s))"

text \<open>
  The engine states that arise from a fresh engine by observations of grid cells (with
  any count), by recording a grid cell as safe and by recording any cell as a mine.
\<close>

inductive reachable :: "MinesweeperAI \<Rightarrow> bool" where
  fresh_engine: "reachable (init h w)"
| observed: "reachable s \<Longrightarrow> cell |\<in>| grid_cells s \<Longrightarrow> reachable (add_knowledge cell cnt s)"
| safe_marked: "reachable s \<Longrightarrow> c |\<in>| grid_cells s \<Longrightarrow> reachable (mark_safe c s)"
| mine_marked: "reachable s \<Longrightarrow> reachable (mark_mine c s)"

text \<open>The known safe cells and the cells of every sentence are cells of the grid.\<close>

definition in_grid :: "MinesweeperAI \<Rightarrow> bool" where
  "in_grid s \<longleftrightarrow>
     safes s |\<subseteq>| grid_cells s \<and> (\<forall>r\<in>set (knowledge s). cells (heap s r) |\<subseteq>| grid_cells s)"

section \<open>Recording a cell: what the two loops compute\<close>

lemma len_0_iff [simp]: "len S = 0 \<longleftrightarrow> S = {||}"
  by (simp add: len_def)

lemma list_remove_skip:
  "\<forall>p\<in>set pre. cells (h p) \<noteq> {||} \<Longrightarrow> cells (h x) = {||} \<Longrightarrow>
   list_remove h x (pre @ x # ys) = Some (pre @ ys)"
  by (induction pre) (auto simp: Sentence_eq_def)

lemma remove_all_prefix:
  "\<forall>p\<in>set pre. cells (h p) \<noteq> {||} \<Longrightarrow>
   remove_all h (filter (\<lambda>r. cells (h r) = {||}) ks) (pre @ ks)
     = Some (pre @ filter (\<lambda>r. cells (h r) \<noteq> {||}) ks)"
proof (induction ks arbitrary: pre)
  case Nil
  then show ?case by simp
next
  case (Cons y ys)
  show ?case
  proof (cases "cells (h y) = {||}")
    case True
    with Cons show ?thesis by (simp add: list_remove_skip)
  next
    case False
    with Cons.prems have "\<forall>p\<in>set (pre @ [y]). cells (h p) \<noteq> {||}" by simp
    from Cons.IH [OF this] False show ?thesis by simp
  qed
qed

lemma remove_all_empty:
  "remove_all h (filter (\<lambda>r. cells (h r) = {||}) ks) ks
     = Some (filter (\<lambda>r. cells (h r) \<noteq> {||}) ks)"
  using remove_all_prefix [of "[]" h ks] by simp

lemma fold_mark_step:
  assumes idem: "\<And>x. f (f x) = f x"
  shows "fold (mark_step f) ks (h, es)
           = (marked f ks h, es @ filter (\<lambda>r. cells (marked f ks h r) = {||}) ks)"
proof (induction ks arbitrary: h es)
  case Nil
  show ?case by (simp add: marked_def)
next
  case (Cons y ys)
  have eq: "marked f ys (h(y := f (h y))) = marked f (y # ys) h"
    by (rule ext) (simp add: marked_def idem)
  have y: "marked f (y # ys) h y = f (h y)"
    by (simp add: marked_def)
  have step: "mark_step f y (h, es)
      = (h(y := f (h y)), es @ (if cells (f (h y)) = {||} then [y] else []))"
    by (simp add: mark_step_def)
  have "fold (mark_step f) (y # ys) (h, es)
      = fold (mark_step f) ys (h(y := f (h y)), es @ (if cells (f (h y)) = {||} then [y] else []))"
    by (simp only: fold_simps step)
  also have "\<dots> = (marked f (y # ys) h,
      (es @ (if cells (f (h y)) = {||} then [y] else []))
        @ filter (\<lambda>r. cells (marked f (y # ys) h r) = {||}) ys)"
    by (simp only: Cons.IH eq)
  also have "\<dots> = (marked f (y # ys) h,
      es @ filter (\<lambda>r. cells (marked f (y # ys) h r) = {||}) (y # ys))"
    by (simp add: y)
  finally show ?case .
qed

lemma mark_sentences_eq:
  assumes idem: "\<And>x. f (f x) = f x"
  shows "mark_sentences f s =
     s\<lparr>knowledge := filter (\<lambda>r. cells (f (heap s r)) \<noteq> {||}) (knowledge s),
       heap := marked f (knowledge s) (heap s)\<rparr>"
proof -
  have "filter (\<lambda>r. cells (marked f (knowledge s) (heap s) r) \<noteq> {||}) (knowledge s)
        = filter (\<lambda>r. cells (f (heap s r)) \<noteq> {||}) (knowledge s)"
    by (rule filter_cong) (simp_all add: marked_def)
  then show ?thesis
    by (simp add: mark_sentences_def fold_mark_step [OF idem] remove_all_empty)
qed

lemma Sentence_mark_mine_idem: "Sentence_mark_mine c (Sentence_mark_mine c x) = Sentence_mark_mine c x"
  by (simp add: Sentence_mark_mine_def)

lemma Sentence_mark_safe_idem: "Sentence_mark_safe c (Sentence_mark_safe c x) = Sentence_mark_safe c x"
  by (simp add: Sentence_mark_safe_def)


lemma mark_mine_eq:
  "mark_mine c s =
     s\<lparr>mines := finsert c (mines s),
       knowledge := filter (\<lambda>r. cells (Sentence_mark_mine c (heap s r)) \<noteq> {||}) (knowledge s),
       heap := marked (Sentence_mark_mine c) (knowledge s) (heap s)\<rparr>"
  by (simp add: mark_mine_def mark_sentences_eq [of "Sentence_mark_mine c", OF Sentence_mark_mine_idem])

lemma mark_safe_eq:
  "mark_safe c s =
     s\<lparr>safes := finsert c (safes s),
       knowledge := filter (\<lambda>r. cells (Sentence_mark_safe c (heap s r)) \<noteq> {||}) (knowledge s),
       heap := marked (Sentence_mark_safe c) (knowledge s) (heap s)\<rparr>"
  by (simp add: mark_safe_def mark_sentences_eq [of "Sentence_mark_safe c", OF Sentence_mark_safe_idem])

lemma cells_Sentence_mark_mine [simp]: "cells (Sentence_mark_mine c x) = cells x |-| {|c|}"
  by (auto simp: Sentence_mark_mine_def)

lemma cells_Sentence_mark_safe [simp]: "cells (Sentence_mark_safe c x) = cells x |-| {|c|}"
  by (auto simp: Sentence_mark_safe_def)

text \<open>The measure of the knowledge base: dropping empty sentences does not change it.\<close>

lemma sum_list_filter_nonzero:
  "sum_list (map g (filter (\<lambda>r. g r \<noteq> (0::nat)) ks)) = sum_list (map g ks)"
  by (induction ks) auto

lemma total_cells_marked:
  assumes f: "\<And>x. cells (f x) = cells x |-| {|c|}"
  shows "total_cells (s\<lparr>knowledge := filter (\<lambda>r. cells (f (heap s r)) \<noteq> {||}) (knowledge s),
                         heap := marked f (knowledge s) (heap s)\<rparr>)
         = sum_list (map (\<lambda>r. fcard (cells (heap s r) |-| {|c|})) (knowledge s))"
proof -
  let ?g = "\<lambda>r. fcard (cells (heap s r) |-| {|c|})"
  let ?ks = "filter (\<lambda>r. ?g r \<noteq> 0) (knowledge s)"
  have ks: "filter (\<lambda>r. cells (f (heap s r)) \<noteq> {||}) (knowledge s) = ?ks"
    by (simp only: f fcard_0_eq)
  have m: "map (\<lambda>r. fcard (cells (marked f (knowledge s) (heap s) r))) ?ks = map ?g ?ks"
    by (rule map_cong) (simp_all add: marked_def f)
  have "total_cells (s\<lparr>knowledge := ?ks, heap := marked f (knowledge s) (heap s)\<rparr>)
      = sum_list (map (\<lambda>r. fcard (cells (marked f (knowledge s) (heap s) r))) ?ks)"
    by (simp add: total_cells_def)
  also have "\<dots> = sum_list (map ?g (knowledge s))"
    by (simp only: m sum_list_filter_nonzero)
  finally show ?thesis by (simp only: ks)
qed

lemma total_cells_mark_mine:
  "total_cells (mark_mine c s) = sum_list (map (\<lambda>r. fcard (cells (heap s r) |-| {|c|})) (knowledge s))"
  using total_cells_marked [of "Sentence_mark_mine c" c "s\<lparr>mines := finsert c (mines s)\<rparr>"]
  by (simp add: mark_mine_eq total_cells_def)

lemma total_cells_mark_safe:
  "total_cells (mark_safe c s) = sum_list (map (\<lambda>r. fcard (cells (heap s r) |-| {|c|})) (knowledge s))"
  using total_cells_marked [of "Sentence_mark_safe c" c "s\<lparr>safes := finsert c (safes s)\<rparr>"]
  by (simp add: mark_safe_eq total_cells_def)

lemma total_cells_mark_mine_le: "total_cells (mark_mine c s) \<le> total_cells s"
  unfolding total_cells_mark_mine unfolding total_cells_def
  by (rule sum_list_mono) (simp add: fcard_fminus1_le)

lemma total_cells_mark_safe_le: "total_cells (mark_safe c s) \<le> total_cells s"
  unfolding total_cells_mark_safe unfolding total_cells_def
  by (rule sum_list_mono) (simp add: fcard_fminus1_le)

lemma total_cells_fold_mark_mine_le: "total_cells (fold mark_mine cs s) \<le> total_cells s"
proof (induction cs arbitrary: s)
  case Nil
  show ?case by simp
next
  case (Cons c cs)
  have "total_cells (fold mark_mine cs (mark_mine c s)) \<le> total_cells (mark_mine c s)"
    by (rule Cons.IH)
  also have "\<dots> \<le> total_cells s" by (rule total_cells_mark_mine_le)
  finally show ?case by simp
qed

lemma total_cells_fold_mark_safe_le: "total_cells (fold mark_safe cs s) \<le> total_cells s"
proof (induction cs arbitrary: s)
  case Nil
  show ?case by simp
next
  case (Cons c cs)
  have "total_cells (fold mark_safe cs (mark_safe c s)) \<le> total_cells (mark_safe c s)"
    by (rule Cons.IH)
  also have "\<dots> \<le> total_cells s" by (rule total_cells_mark_safe_le)
  finally show ?case by simp
qed

lemma total_cells_mms_step_le: "total_cells (mms_step r s) \<le> total_cells s"
  by (simp add: mms_step_def Let_def total_cells_fold_mark_mine_le total_cells_fold_mark_safe_le)

lemma total_cells_fold_mms_step_le: "total_cells (fold mms_step rs s) \<le> total_cells s"
proof (induction rs arbitrary: s)
  case Nil
  show ?case by simp
next
  case (Cons r rs)
  have "total_cells (fold mms_step rs (mms_step r s)) \<le> total_cells (mms_step r s)"
    by (rule Cons.IH)
  also have "\<dots> \<le> total_cells s" by (rule total_cells_mms_step_le)
  finally show ?case by simp
qed

lemma total_cells_mark_mines_safes_le: "total_cells (mark_mines_safes s) \<le> total_cells s"
  by (simp add: mark_mines_safes_def total_cells_fold_mms_step_le)


lemma Sentence_update_eq: "(x::Sentence)\<lparr>cells := a, count := b\<rparr> = \<lparr>cells = a, count = b\<rparr>"
  by (cases x) simp

lemma infer_pair_eq:
  "infer_pair r1 r2 (h, d) = (if applies h r1 r2 then (resolved h r1 r2, True) else (h, d))"
proof (cases "applies h r1 r2")
  case True
  then have "r1 \<noteq> r2" by (auto simp: applies_def Sentence_eq_def)
  with True show ?thesis
    by (simp add: infer_pair_def applies_def resolved_def Let_def Sentence_update_eq)
next
  case False
  then show ?thesis by (auto simp: infer_pair_def applies_def)
qed

lemma shrinks_refl: "shrinks ks x x"
  by (simp add: shrinks_def)

lemma shrinks_trans: "shrinks ks x y \<Longrightarrow> shrinks ks y z \<Longrightarrow> snd y \<longrightarrow> snd z \<Longrightarrow> shrinks ks x z"
  unfolding shrinks_def
  by (metis (no_types, lifting) le_trans less_le_trans le_less_trans)

lemma infer_pair_keeps_drawn: "snd x \<Longrightarrow> snd (infer_pair r1 r2 x)"
  by (cases x) (simp add: infer_pair_eq)

lemma infer_pair_shrinks: "r2 \<in> set ks \<Longrightarrow> shrinks ks x (infer_pair r1 r2 x)"
proof (cases x)
  case (Pair h d)
  assume r2: "r2 \<in> set ks"
  show ?thesis
  proof (cases "applies h r1 r2")
    case False
    with Pair show ?thesis by (simp add: infer_pair_eq shrinks_refl)
  next
    case True
    then have "cells (h r2) |-| cells (h r1) |\<subset>| cells (h r2)"
      by (auto simp: applies_def)
    then have "fcard (cells (h r2) |-| cells (h r1)) < fcard (cells (h r2))"
      by (rule pfsubset_fcard_mono)
    with True Pair r2 show ?thesis
      by (auto simp: infer_pair_eq shrinks_def resolved_def)
  qed
qed

lemma fold_infer_pair_shrinks:
  "set rs \<subseteq> set ks \<Longrightarrow>
   shrinks ks x (fold (infer_pair r1) rs x) \<and> (snd x \<longrightarrow> snd (fold (infer_pair r1) rs x))"
proof (induction rs arbitrary: x)
  case Nil
  show ?case by (simp add: shrinks_refl)
next
  case (Cons r rs)
  let ?y = "infer_pair r1 r x"
  from Cons.prems have r: "r \<in> set ks" and rs: "set rs \<subseteq> set ks" by simp_all
  note s1 = infer_pair_shrinks [OF r, of x r1] and d1 = infer_pair_keeps_drawn [of x r1 r]
  note IH = Cons.IH [OF rs, of ?y]
  from IH have s2: "shrinks ks ?y (fold (infer_pair r1) rs ?y)"
    and d2: "snd ?y \<longrightarrow> snd (fold (infer_pair r1) rs ?y)" by simp_all
  from shrinks_trans [OF s1 s2 d2] d1 d2 show ?case by simp
qed

lemma infer_pairs_shrinks_aux:
  "set rs \<subseteq> set ks \<Longrightarrow>
   shrinks ks x (fold (\<lambda>r1. fold (infer_pair r1) ks) rs x)
   \<and> (snd x \<longrightarrow> snd (fold (\<lambda>r1. fold (infer_pair r1) ks) rs x))"
proof (induction rs arbitrary: x)
  case Nil
  show ?case by (simp add: shrinks_refl)
next
  case (Cons r rs)
  let ?y = "fold (infer_pair r) ks x"
  from Cons.prems have rs: "set rs \<subseteq> set ks" by simp
  from fold_infer_pair_shrinks [of ks ks x r]
  have s1: "shrinks ks x ?y" and d1: "snd x \<longrightarrow> snd ?y" by simp_all
  from Cons.IH [OF rs, of ?y]
  have s2: "shrinks ks ?y (fold (\<lambda>r1. fold (infer_pair r1) ks) rs ?y)"
    and d2: "snd ?y \<longrightarrow> snd (fold (\<lambda>r1. fold (infer_pair r1) ks) rs ?y)" by simp_all
  from shrinks_trans [OF s1 s2 d2] d1 d2 show ?case by simp
qed

lemma infer_pairs_shrinks: "shrinks ks x (infer_pairs ks x)"
  using infer_pairs_shrinks_aux [of ks ks x] by (simp add: infer_pairs_def)

lemma sum_list_strict:
  fixes g g' :: "'a \<Rightarrow> nat"
  assumes "\<forall>r. g' r \<le> g r" and "\<exists>r\<in>set ks. g' r < g r"
  shows "sum_list (map g' ks) < sum_list (map g ks)"
  using assms(2)
proof (induction ks)
  case Nil
  then show ?case by simp
next
  case (Cons k ks)
  have le: "sum_list (map g' ks) \<le> sum_list (map g ks)"
    by (rule sum_list_mono) (simp add: assms(1))
  show ?case
  proof (cases "g' k < g k")
    case True
    with le show ?thesis by simp
  next
    case False
    with Cons.prems have "\<exists>r\<in>set ks. g' r < g r" by auto
    from Cons.IH [OF this] assms(1) [rule_format, of k] show ?thesis by simp
  qed
qed

lemma infer_pairs_total:
  assumes "infer_pairs (knowledge s) (heap s, False) = (h, drawn)"
  shows "if drawn then total_cells (s\<lparr>heap := h\<rparr>) < total_cells s else h = heap s"
proof -
  from infer_pairs_shrinks [of "knowledge s" "(heap s, False)"] assms
  have sh: "shrinks (knowledge s) (heap s, False) (h, drawn)" by simp
  show ?thesis
  proof (cases drawn)
    case False
    with sh show ?thesis by (simp add: shrinks_def)
  next
    case True
    with sh have "\<forall>r. fcard (cells (h r)) \<le> fcard (cells (heap s r))"
      and "\<exists>r\<in>set (knowledge s). fcard (cells (h r)) < fcard (cells (heap s r))"
      by (simp_all add: shrinks_def)
    from sum_list_strict [OF this] True show ?thesis by (simp add: total_cells_def)
  qed
qed

lemma draw_pass_decreases:
  assumes "draw_pass s = (True, s')"
  shows "total_cells s' < total_cells s"
proof -
  obtain h drawn where ip: "infer_pairs (knowledge s) (heap s, False) = (h, drawn)"
    by (cases "infer_pairs (knowledge s) (heap s, False)")
  with assms have d: "drawn" and s': "s' = mark_mines_safes (s\<lparr>heap := h\<rparr>)"
    by (simp_all add: draw_pass_def)
  from infer_pairs_total [OF ip] d have "total_cells (s\<lparr>heap := h\<rparr>) < total_cells s" by simp
  with total_cells_mark_mines_safes_le [of "s\<lparr>heap := h\<rparr>"] s' show ?thesis by simp
qed

termination draw_loop
  apply (relation "measure total_cells")
   apply simp
  apply (simp add: draw_pass_decreases)
  done

section \<open>What the operations leave unchanged\<close>

lemma grows_refl: "grows s s"
  by (simp add: grows_def)

lemma grows_trans: "grows s t \<Longrightarrow> grows t u \<Longrightarrow> grows s u"
  by (auto simp: grows_def)

lemma grows_fold:
  assumes "\<And>x s. grows s (f x s)"
  shows "grows s (fold f xs s)"
proof (induction xs arbitrary: s)
  case Nil
  show ?case by (simp add: grows_refl)
next
  case (Cons x xs)
  from grows_trans [OF assms [of s x] Cons.IH [of "f x s"]] show ?case by simp
qed

lemma grows_mark_mine: "grows s (mark_mine c s)"
  by (auto simp: grows_def mark_mine_eq)

lemma grows_mark_safe: "grows s (mark_safe c s)"
  by (auto simp: grows_def mark_safe_eq)

lemma grows_mms_step: "grows s (mms_step r s)"
  by (simp add: mms_step_def Let_def grows_refl grows_fold grows_mark_mine grows_mark_safe)

lemma grows_mark_mines_safes: "grows s (mark_mines_safes s)"
  by (simp add: mark_mines_safes_def grows_fold grows_mms_step)

lemma grows_draw_pass: "grows s (snd (draw_pass s))"
proof -
  obtain h drawn where ip: "infer_pairs (knowledge s) (heap s, False) = (h, drawn)"
    by (cases "infer_pairs (knowledge s) (heap s, False)")
  have "grows s (s\<lparr>heap := h\<rparr>)" by (simp add: grows_def)
  from grows_trans [OF this grows_mark_mines_safes] ip show ?thesis
    by (simp add: draw_pass_def)
qed

lemma draw_loop_invariant:
  assumes step: "\<And>t. P t \<Longrightarrow> P (snd (draw_pass t))" and init: "P s"
  shows "P (draw_loop s)"
  using init
proof (induction s rule: draw_loop.induct)
  case (1 s)
  obtain drawn s' where dp: "draw_pass s = (drawn, s')" by (cases "draw_pass s")
  with step [OF "1.prems"] have s': "P s'" by simp
  show ?case
  proof (cases drawn)
    case True
    from "1.IH" [OF dp [symmetric] True s'] dp True show ?thesis
      by (subst draw_loop.simps) simp
  next
    case False
    with dp s' show ?thesis by (subst draw_loop.simps) simp
  qed
qed

lemma grows_draw_loop: "grows s (draw_loop s)"
proof (rule draw_loop_invariant [where P = "grows s"])
  show "grows s s" by (rule grows_refl)
next
  fix t assume "grows s t"
  then show "grows s (snd (draw_pass t))" using grows_draw_pass by (rule grows_trans)
qed

lemma grows_add_knowledge:
  "grows (s\<lparr>moves_made := finsert cell (moves_made s), safes := finsert cell (safes s)\<rparr>)
     (add_knowledge cell cnt s)"
proof -
  let ?s1 = "s\<lparr>moves_made := finsert cell (moves_made s)\<rparr>"
  let ?s2 = "mark_safe cell ?s1"
  obtain cs cnt' where ns: "new_sentence ?s2 cell cnt = (cs, cnt')"
    by (cases "new_sentence ?s2 cell cnt")
  define s3 where "s3 = (if cnt' = 0
      then fold (\<lambda>neighbor s. mark_safe neighbor (s\<lparr>safes := finsert neighbor (safes s)\<rparr>))
             (sorted_list_of_fset cs) ?s2
      else if len cs = cnt'
      then fold (\<lambda>neighbor s. mark_mine neighbor (s\<lparr>mines := finsert neighbor (mines s)\<rparr>))
             (sorted_list_of_fset cs) ?s2
      else ?s2)"
  define s4 where "s4 = s3\<lparr>knowledge := knowledge s3 @ [fresh (knowledge s3)],
      heap := (heap s3)(fresh (knowledge s3) := \<lparr>cells = cs, count = cnt'\<rparr>)\<rparr>"
  have ak: "add_knowledge cell cnt s = draw_loop (mark_mines_safes s4)"
    by (simp add: add_knowledge_def Let_def ns s3_def s4_def draw_interferences_def)
  have g2: "grows (s\<lparr>moves_made := finsert cell (moves_made s), safes := finsert cell (safes s)\<rparr>) ?s2"
    by (auto simp: grows_def mark_safe_eq)
  have a: "\<And>n t. grows t (mark_safe n (t\<lparr>safes := finsert n (safes t)\<rparr>))"
    by (auto simp: grows_def mark_safe_eq)
  have b: "\<And>n t. grows t (mark_mine n (t\<lparr>mines := finsert n (mines t)\<rparr>))"
    by (auto simp: grows_def mark_mine_eq)
  have g3: "grows ?s2 s3"
    unfolding s3_def by (simp add: grows_refl grows_fold [of _ "?s2", OF a] grows_fold [of _ "?s2", OF b])
  have g4: "grows s3 s4" by (simp add: grows_def s4_def)
  note g5 = grows_trans [OF grows_mark_mines_safes grows_draw_loop, of s4]
  from grows_trans [OF g2 grows_trans [OF g3 grows_trans [OF g4 g5]]] ak show ?thesis by simp
qed

section \<open>Move selection and the scenarios: auxiliary facts\<close>

lemma set_pop_member: "S \<noteq> {||} \<Longrightarrow> set_pop k S |\<in>| S"
proof -
  assume ne: "S \<noteq> {||}"
  have len: "length (sorted_list_of_fset S) = fcard S"
    by (simp add: sorted_list_of_fset.rep_eq fcard.rep_eq)
  from ne have "0 < fcard S" by (simp add: fcard_0_eq [symmetric] del: fcard_0_eq)
  then have "k mod fcard S < length (sorted_list_of_fset S)" by (simp add: len)
  then have "sorted_list_of_fset S ! (k mod fcard S) \<in> set (sorted_list_of_fset S)"
    by (rule nth_mem)
  then show ?thesis by (simp add: set_pop_def)
qed

lemma random_choice_member: "xs \<noteq> [] \<Longrightarrow> random_choice k xs \<in> set xs"
  by (simp add: random_choice_def)

lemma set_candidate_cells:
  "set (candidate_cells s) = {c. c |\<in>| grid_cells s \<and> c |\<notin>| moves_made s \<and> c |\<notin>| mines s}"
  by (auto simp: candidate_cells_def grid_cells_def fset_of_list.rep_eq split: if_splits)

lemma safes_fold_mark_safe: "c \<in> set cs \<or> c |\<in>| safes s \<Longrightarrow> c |\<in>| safes (fold mark_safe cs s)"
  by (induction cs arbitrary: s) (auto simp: mark_safe_eq)



section \<open>Progress of the passes\<close>

lemma sum_list_fminus_strict:
  assumes r: "r \<in> set ks" and c: "c |\<in>| cells (h r)"
  shows "sum_list (map (\<lambda>r. fcard (cells (h r) |-| {|c|})) ks) < sum_list (map (\<lambda>r. fcard (cells (h r))) ks)"
proof (rule sum_list_strict)
  show "\<forall>r. fcard (cells (h r) |-| {|c|}) \<le> fcard (cells (h r))"
    by (simp add: fcard_fminus1_le)
  from r c show "\<exists>r\<in>set ks. fcard (cells (h r) |-| {|c|}) < fcard (cells (h r))"
    by (auto intro: fcard_fminus1_less)
qed

lemma total_cells_mark_mine_less:
  "r \<in> set (knowledge s) \<Longrightarrow> c |\<in>| cells (heap s r) \<Longrightarrow> total_cells (mark_mine c s) < total_cells s"
  unfolding total_cells_mark_mine unfolding total_cells_def by (rule sum_list_fminus_strict)

lemma total_cells_mark_safe_less:
  "r \<in> set (knowledge s) \<Longrightarrow> c |\<in>| cells (heap s r) \<Longrightarrow> total_cells (mark_safe c s) < total_cells s"
  unfolding total_cells_mark_safe unfolding total_cells_def by (rule sum_list_fminus_strict)

lemma sorted_list_of_fset_Nil_iff: "sorted_list_of_fset S = [] \<longleftrightarrow> S = {||}"
proof
  assume "sorted_list_of_fset S = []"
  then have "fset_of_list (sorted_list_of_fset S) = {||}" by simp
  then show "S = {||}" by (simp only: sorted_list_of_fset_simps)
next
  assume "S = {||}"
  then show "sorted_list_of_fset S = []" by (simp add: sorted_list_of_fset.rep_eq)
qed

lemma mms_step_progress:
  assumes "live_or_empty s r"
  shows "total_cells (mms_step r s) < total_cells s \<or> mms_step r s = s"
proof (cases "cells (heap s r) = {||}")
  case True
  then have "sorted_list_of_fset (cells (heap s r)) = []" by (simp add: sorted_list_of_fset_Nil_iff)
  then show ?thesis by (simp add: mms_step_def Let_def)
next
  case False
  with assms have r: "r \<in> set (knowledge s)" by (simp add: live_or_empty_def)
  from False obtain c cs where cs: "sorted_list_of_fset (cells (heap s r)) = c # cs"
    by (cases "sorted_list_of_fset (cells (heap s r))") (simp_all add: sorted_list_of_fset_Nil_iff)
  then have "c \<in> set (sorted_list_of_fset (cells (heap s r)))" by simp
  then have c: "c |\<in>| cells (heap s r)" by simp
  have m: "total_cells (fold mark_mine (c # cs) s) < total_cells s"
    using total_cells_fold_mark_mine_le [of cs "mark_mine c s"] total_cells_mark_mine_less [OF r c]
    by simp
  have f: "total_cells (fold mark_safe (c # cs) s) < total_cells s"
    using total_cells_fold_mark_safe_le [of cs "mark_safe c s"] total_cells_mark_safe_less [OF r c]
    by simp
  from m f show ?thesis by (simp add: mms_step_def Let_def cs)
qed

lemma fold_mms_step_progress:
  "\<forall>r\<in>set rs. live_or_empty s r \<Longrightarrow>
   total_cells (fold mms_step rs s) < total_cells s \<or> fold mms_step rs s = s"
proof (induction rs)
  case Nil
  show ?case by simp
next
  case (Cons r rs)
  from Cons.prems have r: "live_or_empty s r" and rs: "\<forall>r\<in>set rs. live_or_empty s r" by simp_all
  from mms_step_progress [OF r] show ?case
  proof
    assume less: "total_cells (mms_step r s) < total_cells s"
    with total_cells_fold_mms_step_le [of rs "mms_step r s"] show ?thesis by simp
  next
    assume "mms_step r s = s"
    with Cons.IH [OF rs] show ?thesis by simp
  qed
qed

lemma mark_mines_safes_progress:
  "total_cells (mark_mines_safes s) < total_cells s \<or> mark_mines_safes s = s"
  unfolding mark_mines_safes_def by (rule fold_mms_step_progress) (simp add: live_or_empty_def)

lemma draw_pass_progress:
  "total_cells (snd (draw_pass s)) < total_cells s \<or> (snd (draw_pass s) = s \<and> \<not> fst (draw_pass s))"
proof (cases "fst (draw_pass s)")
  case True
  then have "draw_pass s = (True, snd (draw_pass s))" by (cases "draw_pass s") simp
  from draw_pass_decreases [OF this] show ?thesis by simp
next
  case False
  obtain h drawn where ip: "infer_pairs (knowledge s) (heap s, False) = (h, drawn)"
    by (cases "infer_pairs (knowledge s) (heap s, False)")
  with False have d: "\<not> drawn" by (simp add: draw_pass_def)
  with infer_pairs_total [OF ip] have "h = heap s" by simp
  with ip have "snd (draw_pass s) = mark_mines_safes s" by (simp add: draw_pass_def)
  with mark_mines_safes_progress [of s] False show ?thesis by auto
qed

lemma draw_loop_passes:
  "\<exists>n. (\<forall>m<n. fst (draw_pass (passes m s))) \<and> \<not> fst (draw_pass (passes n s))
       \<and> draw_loop s = snd (draw_pass (passes n s))"
proof (induction s rule: draw_loop.induct)
  case (1 s)
  obtain drawn s' where dp: "draw_pass s = (drawn, s')" by (cases "draw_pass s")
  show ?case
  proof (cases drawn)
    case False
    with dp have "\<not> fst (draw_pass (passes 0 s))" and "draw_loop s = snd (draw_pass (passes 0 s))"
      by (simp_all add: draw_loop.simps [of s])
    then show ?thesis by blast
  next
    case True
    from "1.IH" [OF dp [symmetric] True] obtain n where
      n: "\<forall>m<n. fst (draw_pass (passes m s'))" "\<not> fst (draw_pass (passes n s'))"
         "draw_loop s' = snd (draw_pass (passes n s'))" by blast
    from dp have shift: "snd (draw_pass s) = s'" by simp
    have "\<forall>m<Suc n. fst (draw_pass (passes m s))"
    proof (intro allI impI)
      fix m assume "m < Suc n"
      show "fst (draw_pass (passes m s))"
      proof (cases m)
        case 0
        with dp True show ?thesis by simp
      next
        case (Suc k)
        with \<open>m < Suc n\<close> n(1) show ?thesis by (simp add: shift)
      qed
    qed
    moreover have "\<not> fst (draw_pass (passes (Suc n) s))" using n(2) by (simp add: shift)
    moreover have "draw_loop s = snd (draw_pass (passes (Suc n) s))"
      using n(3) dp True by (simp add: shift draw_loop.simps [of s])
    ultimately show ?thesis by blast
  qed
qed

section \<open>Consistency with a placement of the mines\<close>

lemma true_in_mark_mine: "true_in M x \<Longrightarrow> c |\<in>| M \<Longrightarrow> true_in M (Sentence_mark_mine c x)"
proof (cases "c |\<in>| cells x")
  case False
  assume "true_in M x"
  with False show ?thesis by (simp add: Sentence_mark_mine_def)
next
  case True
  assume t: "true_in M x" and c: "c |\<in>| M"
  have eq: "(cells x |-| {|c|}) |\<inter>| M = (cells x |\<inter>| M) |-| {|c|}" by auto
  from True c have "c |\<in>| cells x |\<inter>| M" by simp
  then have "fcard (cells x |\<inter>| M) = Suc (fcard ((cells x |\<inter>| M) |-| {|c|}))"
    by (rule fcard_Suc_fminus1 [symmetric])
  with t True show ?thesis
    by (simp add: true_in_def Sentence_mark_mine_def len_def eq)
qed

lemma true_in_mark_safe: "true_in M x \<Longrightarrow> c |\<notin>| M \<Longrightarrow> true_in M (Sentence_mark_safe c x)"
proof -
  assume t: "true_in M x" and c: "c |\<notin>| M"
  then have "(cells x |-| {|c|}) |\<inter>| M = cells x |\<inter>| M" by auto
  with t show ?thesis by (simp add: true_in_def Sentence_mark_safe_def)
qed

lemma true_in_all_mines: "true_in M x \<Longrightarrow> len (cells x) = count x \<Longrightarrow> cells x |\<subseteq>| M"
proof -
  assume "true_in M x" and "len (cells x) = count x"
  then have "fcard (cells x) \<le> fcard (cells x |\<inter>| M)" by (simp add: true_in_def len_def)
  with fcard_seteq [of "cells x |\<inter>| M" "cells x"] have "cells x |\<inter>| M = cells x" by simp
  then show ?thesis by auto
qed

lemma true_in_all_safe: "true_in M x \<Longrightarrow> count x = 0 \<Longrightarrow> cells x |\<inter>| M = {||}"
  by (simp add: true_in_def)

lemma true_in_difference:
  assumes a: "true_in M a" and b: "true_in M b" and sub: "cells a |\<subseteq>| cells b"
  shows "true_in M \<lparr>cells = cells b |-| cells a, count = count b - count a\<rparr>"
proof -
  from sub have "(cells b |-| cells a) |\<inter>| M = (cells b |\<inter>| M) |-| (cells a |\<inter>| M)" by auto
  moreover from sub have "cells a |\<inter>| M |\<subseteq>| cells b |\<inter>| M" by auto
  then have "fcard ((cells b |\<inter>| M) |-| (cells a |\<inter>| M))
      = fcard (cells b |\<inter>| M) - fcard (cells a |\<inter>| M)"
    and "fcard (cells a |\<inter>| M) \<le> fcard (cells b |\<inter>| M)"
    by (simp_all add: fcard_funion_fsubset fcard_mono)
  ultimately show ?thesis using a b by (simp add: true_in_def len_def)
qed

lemma true_in_range: "true_in M x \<Longrightarrow> count_in_range x"
  by (simp add: true_in_def count_in_range_def len_def fcard_mono)

lemma consistent_mark_mine: "consistent M s \<Longrightarrow> c |\<in>| M \<Longrightarrow> consistent M (mark_mine c s)"
  by (auto simp: consistent_def mark_mine_eq marked_def true_in_mark_mine)

lemma consistent_mark_safe: "consistent M s \<Longrightarrow> c |\<notin>| M \<Longrightarrow> consistent M (mark_safe c s)"
  by (auto simp: consistent_def mark_safe_eq marked_def true_in_mark_safe)

lemma consistent_fold_mark_mine:
  "consistent M s \<Longrightarrow> \<forall>c\<in>set cs. c |\<in>| M \<Longrightarrow> consistent M (fold mark_mine cs s)"
  by (induction cs arbitrary: s) (simp_all add: consistent_mark_mine)

lemma consistent_fold_mark_safe:
  "consistent M s \<Longrightarrow> \<forall>c\<in>set cs. c |\<notin>| M \<Longrightarrow> consistent M (fold mark_safe cs s)"
  by (induction cs arbitrary: s) (simp_all add: consistent_mark_safe)

lemma live_or_empty_mark_mine: "live_or_empty s r \<Longrightarrow> live_or_empty (mark_mine c s) r"
  by (auto simp: live_or_empty_def mark_mine_eq marked_def)

lemma live_or_empty_mark_safe: "live_or_empty s r \<Longrightarrow> live_or_empty (mark_safe c s) r"
  by (auto simp: live_or_empty_def mark_safe_eq marked_def)

lemma live_or_empty_fold_mark_mine: "live_or_empty s r \<Longrightarrow> live_or_empty (fold mark_mine cs s) r"
  by (induction cs arbitrary: s) (simp_all add: live_or_empty_mark_mine)

lemma live_or_empty_fold_mark_safe: "live_or_empty s r \<Longrightarrow> live_or_empty (fold mark_safe cs s) r"
  by (induction cs arbitrary: s) (simp_all add: live_or_empty_mark_safe)

lemma live_or_empty_mms_step: "live_or_empty s r' \<Longrightarrow> live_or_empty (mms_step r s) r'"
  by (simp add: mms_step_def Let_def live_or_empty_fold_mark_mine live_or_empty_fold_mark_safe)

lemma consistent_mms_step:
  assumes c: "consistent M s" and l: "live_or_empty s r"
  shows "consistent M (mms_step r s)"
proof (cases "r \<in> set (knowledge s)")
  case False
  with l have "cells (heap s r) = {||}" by (simp add: live_or_empty_def)
  then have "sorted_list_of_fset (cells (heap s r)) = []" by (simp add: sorted_list_of_fset_Nil_iff)
  with c show ?thesis by (simp add: mms_step_def Let_def)
next
  case True
  with c have t: "true_in M (heap s r)" by (simp add: consistent_def)
  show ?thesis
  proof (cases "len (cells (heap s r)) = count (heap s r)")
    case True
    from true_in_all_mines [OF t True]
    have "\<forall>c\<in>set (sorted_list_of_fset (cells (heap s r))). c |\<in>| M" by auto
    from consistent_fold_mark_mine [OF c this] True show ?thesis by (simp add: mms_step_def Let_def)
  next
    case False
    show ?thesis
    proof (cases "count (heap s r) = 0")
      case True
      from true_in_all_safe [OF t True]
      have "\<forall>c\<in>set (sorted_list_of_fset (cells (heap s r))). c |\<notin>| M" by auto
      from consistent_fold_mark_safe [OF c this] False True show ?thesis
        by (simp add: mms_step_def Let_def)
    next
      case nz: False
      with False c show ?thesis by (simp add: mms_step_def Let_def)
    qed
  qed
qed

lemma consistent_fold_mms_step:
  "consistent M s \<Longrightarrow> \<forall>r\<in>set rs. live_or_empty s r \<Longrightarrow> consistent M (fold mms_step rs s)"
proof (induction rs arbitrary: s)
  case Nil
  then show ?case by simp
next
  case (Cons r rs)
  from Cons.prems have c: "consistent M (mms_step r s)" by (simp add: consistent_mms_step)
  from Cons.prems have "\<forall>r'\<in>set rs. live_or_empty (mms_step r s) r'"
    by (simp add: live_or_empty_mms_step)
  from Cons.IH [OF c this] show ?case by simp
qed

lemma consistent_mark_mines_safes: "consistent M s \<Longrightarrow> consistent M (mark_mines_safes s)"
  unfolding mark_mines_safes_def
  by (rule consistent_fold_mms_step) (simp_all add: live_or_empty_def)

text \<open>Subset resolution keeps every sentence of the list true.\<close>

lemma true_in_infer_pair:
  assumes "\<forall>r\<in>set ks. true_in M (fst x r)" and "r1 \<in> set ks" and "r2 \<in> set ks"
  shows "\<forall>r\<in>set ks. true_in M (fst (infer_pair r1 r2 x) r)"
proof (cases x)
  case (Pair h d)
  show ?thesis
  proof (cases "applies h r1 r2")
    case False
    with Pair assms show ?thesis by (simp add: infer_pair_eq)
  next
    case True
    then have sub: "cells (h r1) |\<subseteq>| cells (h r2)" by (simp add: applies_def)
    from assms Pair have "true_in M (h r1)" and "true_in M (h r2)" by simp_all
    from true_in_difference [OF this sub] assms(1) Pair True show ?thesis
      by (simp add: infer_pair_eq resolved_def)
  qed
qed

lemma true_in_fold_infer_pair:
  "\<forall>r\<in>set ks. true_in M (fst x r) \<Longrightarrow> r1 \<in> set ks \<Longrightarrow> set rs \<subseteq> set ks \<Longrightarrow>
   \<forall>r\<in>set ks. true_in M (fst (fold (infer_pair r1) rs x) r)"
proof (induction rs arbitrary: x)
  case Nil
  then show ?case by simp
next
  case (Cons r rs)
  from Cons.prems have "\<forall>r'\<in>set ks. true_in M (fst (infer_pair r1 r x) r')"
    by (intro true_in_infer_pair) simp_all
  from Cons.IH [OF this] Cons.prems show ?case by simp
qed

lemma true_in_infer_pairs_aux:
  "\<forall>r\<in>set ks. true_in M (fst x r) \<Longrightarrow> set rs \<subseteq> set ks \<Longrightarrow>
   \<forall>r\<in>set ks. true_in M (fst (fold (\<lambda>r1. fold (infer_pair r1) ks) rs x) r)"
proof (induction rs arbitrary: x)
  case Nil
  then show ?case by simp
next
  case (Cons r rs)
  from Cons.prems have "\<forall>r'\<in>set ks. true_in M (fst (fold (infer_pair r) ks x) r')"
    by (intro true_in_fold_infer_pair) simp_all
  from Cons.IH [OF this] Cons.prems show ?case by simp
qed

lemma true_in_infer_pairs:
  "\<forall>r\<in>set ks. true_in M (h r) \<Longrightarrow> \<forall>r\<in>set ks. true_in M (fst (infer_pairs ks (h, d)) r)"
  using true_in_infer_pairs_aux [of ks M "(h, d)" ks] by (simp add: infer_pairs_def)

lemma consistent_draw_pass: "consistent M s \<Longrightarrow> consistent M (snd (draw_pass s))"
proof -
  assume c: "consistent M s"
  obtain h drawn where ip: "infer_pairs (knowledge s) (heap s, False) = (h, drawn)"
    by (cases "infer_pairs (knowledge s) (heap s, False)")
  from c have "\<forall>r\<in>set (knowledge s). true_in M (heap s r)" by (simp add: consistent_def)
  from true_in_infer_pairs [OF this, of False] ip
  have "\<forall>r\<in>set (knowledge s). true_in M (h r)" by simp
  with c have "consistent M (s\<lparr>heap := h\<rparr>)" by (simp add: consistent_def)
  from consistent_mark_mines_safes [OF this] ip show ?thesis by (simp add: draw_pass_def)
qed

lemma consistent_draw_loop: "consistent M s \<Longrightarrow> consistent M (draw_loop s)"
  by (rule draw_loop_invariant [where P = "consistent M"]) (simp_all add: consistent_draw_pass)


lemma fresh_bound: "fold (\<lambda>r m. max (Suc r) m) ks m0 \<ge> m0 \<and> (\<forall>r\<in>set ks. r < fold (\<lambda>r m. max (Suc r) m) ks m0)"
proof (induction ks arbitrary: m0)
  case Nil
  show ?case by simp
next
  case (Cons k ks)
  from Cons.IH [of "max (Suc k) m0"] show ?case by auto
qed

lemma fresh_notin: "fresh ks \<notin> set ks"
  using fresh_bound [of 0 ks] by (auto simp: fresh_def)

lemma neighbor_cells_cong:
  "height s' = height s \<Longrightarrow> width s' = width s \<Longrightarrow> neighbor_cells s' cell = neighbor_cells s cell"
  by (simp add: neighbor_cells_def)

lemma fold_exclude_step:
  assumes mm: "moves_made s \<noteq> {||}"
    and no: "\<forall>n\<in>set xs. n |\<in>| moves_made s \<longrightarrow> n |\<notin>| mines s"
  shows "fold (exclude_step s) xs (cs, c) = (cs |\<union>| (fset_of_list xs |-| moves_made s), c)"
  using no
proof (induction xs arbitrary: cs)
  case Nil
  show ?case by simp
next
  case (Cons x xs)
  from Cons.prems have no': "\<forall>n\<in>set xs. n |\<in>| moves_made s \<longrightarrow> n |\<notin>| mines s" by simp
  show ?case
  proof (cases "x |\<in>| moves_made s")
    case True
    with Cons.prems have "x |\<notin>| mines s" by simp
    with True mm have "exclude_step s x (cs, c) = (cs, c)" by (simp add: exclude_step_def py_or_def)
    moreover from True have "fset_of_list (x # xs) |-| moves_made s = fset_of_list xs |-| moves_made s"
      by auto
    ultimately show ?thesis using Cons.IH [OF no', of cs] by simp
  next
    case False
    with mm have "exclude_step s x (cs, c) = (finsert x cs, c)" by (simp add: exclude_step_def py_or_def)
    moreover from False have "finsert x cs |\<union>| (fset_of_list xs |-| moves_made s)
        = cs |\<union>| (fset_of_list (x # xs) |-| moves_made s)" by auto
    ultimately show ?thesis using Cons.IH [OF no', of "finsert x cs"] by simp
  qed
qed

lemma new_sentence_consistent:
  assumes c: "consistent M s" and mm: "moves_made s \<noteq> {||}"
  shows "new_sentence s cell cnt = (neighbor_cells s cell |-| moves_made s, cnt)"
proof -
  from c have "\<forall>n\<in>set (sorted_list_of_fset (neighbor_cells s cell)).
      n |\<in>| moves_made s \<longrightarrow> n |\<notin>| mines s"
    by (auto simp: consistent_def)
  from fold_exclude_step [OF mm this, of "{||}" cnt] show ?thesis
    by (simp add: new_sentence_def)
qed

lemma consistent_add_safe: "consistent M s \<Longrightarrow> n |\<notin>| M \<Longrightarrow> consistent M (s\<lparr>safes := finsert n (safes s)\<rparr>)"
  by (auto simp: consistent_def)

lemma consistent_add_mine: "consistent M s \<Longrightarrow> n |\<in>| M \<Longrightarrow> consistent M (s\<lparr>mines := finsert n (mines s)\<rparr>)"
  by (auto simp: consistent_def)

lemma consistent_fold_add_safe:
  "consistent M s \<Longrightarrow> \<forall>c\<in>set cs. c |\<notin>| M \<Longrightarrow>
   consistent M (fold (\<lambda>neighbor s. mark_safe neighbor (s\<lparr>safes := finsert neighbor (safes s)\<rparr>)) cs s)"
  by (induction cs arbitrary: s) (simp_all add: consistent_mark_safe consistent_add_safe)

lemma consistent_fold_add_mine:
  "consistent M s \<Longrightarrow> \<forall>c\<in>set cs. c |\<in>| M \<Longrightarrow>
   consistent M (fold (\<lambda>neighbor s. mark_mine neighbor (s\<lparr>mines := finsert neighbor (mines s)\<rparr>)) cs s)"
  by (induction cs arbitrary: s) (simp_all add: consistent_mark_mine consistent_add_mine)

lemma consistent_add_knowledge:
  assumes c: "consistent M s" and cell: "cell |\<notin>| M"
    and cnt: "cnt = len (neighbor_cells s cell |\<inter>| M)"
  shows "consistent M (add_knowledge cell cnt s)"
proof -
  let ?s1 = "s\<lparr>moves_made := finsert cell (moves_made s)\<rparr>"
  let ?s2 = "mark_safe cell ?s1"
  let ?cs = "neighbor_cells s cell |-| finsert cell (moves_made s)"
  from c cell have c1: "consistent M ?s1" by (auto simp: consistent_def)
  from consistent_mark_safe [OF c1 cell] have c2: "consistent M ?s2" .
  have mm2: "moves_made ?s2 = finsert cell (moves_made s)" by (simp add: mark_safe_eq)
  have nb: "neighbor_cells ?s2 cell = neighbor_cells s cell"
    by (rule neighbor_cells_cong) (simp_all add: mark_safe_eq)
  from new_sentence_consistent [OF c2, of cell cnt]
  have ns: "new_sentence ?s2 cell cnt = (?cs, cnt)" by (simp add: mm2 nb)
  from c have "moves_made s |\<inter>| M = {||}" by (simp add: consistent_def)
  with cell have "?cs |\<inter>| M = neighbor_cells s cell |\<inter>| M" by auto
  with cnt have t: "true_in M \<lparr>cells = ?cs, count = cnt\<rparr>" by (simp add: true_in_def)
  define s3 where "s3 = (if cnt = 0
      then fold (\<lambda>neighbor s. mark_safe neighbor (s\<lparr>safes := finsert neighbor (safes s)\<rparr>))
             (sorted_list_of_fset ?cs) ?s2
      else if len ?cs = cnt
      then fold (\<lambda>neighbor s. mark_mine neighbor (s\<lparr>mines := finsert neighbor (mines s)\<rparr>))
             (sorted_list_of_fset ?cs) ?s2
      else ?s2)"
  define s4 where "s4 = s3\<lparr>knowledge := knowledge s3 @ [fresh (knowledge s3)],
      heap := (heap s3)(fresh (knowledge s3) := \<lparr>cells = ?cs, count = cnt\<rparr>)\<rparr>"
  have ak: "add_knowledge cell cnt s = draw_loop (mark_mines_safes s4)"
    by (simp add: add_knowledge_def Let_def ns s3_def s4_def draw_interferences_def)
  have c3: "consistent M s3"
  proof (cases "cnt = 0")
    case True
    with true_in_all_safe [OF t] have "\<forall>c\<in>set (sorted_list_of_fset ?cs). c |\<notin>| M" by auto
    from consistent_fold_add_safe [OF c2 this] True show ?thesis by (simp add: s3_def)
  next
    case False
    show ?thesis
    proof (cases "len ?cs = cnt")
      case True
      with true_in_all_mines [OF t] have "\<forall>c\<in>set (sorted_list_of_fset ?cs). c |\<in>| M" by auto
      from consistent_fold_add_mine [OF c2 this] True False show ?thesis by (simp add: s3_def)
    next
      case nl: False
      with False c2 show ?thesis by (simp add: s3_def)
    qed
  qed
  have c4: "consistent M s4"
    using c3 t fresh_notin [of "knowledge s3"] by (auto simp: consistent_def s4_def)
  from consistent_draw_loop [OF consistent_mark_mines_safes [OF c4]] ak show ?thesis by simp
qed

lemma nonempty_mark_mine: "x \<in> set (sentences (mark_mine c s)) \<Longrightarrow> cells x \<noteq> {||}"
  by (auto simp: sentences_def mark_mine_eq marked_def)

lemma nonempty_mark_safe: "x \<in> set (sentences (mark_safe c s)) \<Longrightarrow> cells x \<noteq> {||}"
  by (auto simp: sentences_def mark_safe_eq marked_def)

lemma consistent_in_range: "consistent M s \<Longrightarrow> x \<in> set (sentences s) \<Longrightarrow> count_in_range x"
  by (auto simp: consistent_def sentences_def true_in_range)

lemma consistent_disjoint: "consistent M s \<Longrightarrow> safes s |\<inter>| mines s = {||}"
  by (auto simp: consistent_def)

lemma moves_subset_grows: "grows s t \<Longrightarrow> moves_made s |\<subseteq>| safes s \<Longrightarrow> moves_made t |\<subseteq>| safes t"
  by (auto simp: grows_def)

lemma moves_subset_add_knowledge:
  "moves_made s |\<subseteq>| safes s \<Longrightarrow> moves_made (add_knowledge cell cnt s) |\<subseteq>| safes (add_knowledge cell cnt s)"
  using grows_add_knowledge [where s = s and cell = cell and cnt = cnt] by (auto simp: grows_def)

section \<open>No \<open>ValueError\<close>, and no dependence on the order of a set\<close>

text \<open>
  In \<open>mark_mine\<close> and \<open>mark_safe\<close> every call of \<open>self.knowledge.remove\<close> finds its
  argument: the list \<open>empty\<close> holds exactly the sentences of the knowledge list whose
  cell set is empty.
\<close>

lemma mark_never_raises:
  assumes "f = Sentence_mark_mine c \<or> f = Sentence_mark_safe c"
    and "fold (mark_step f) ks (h, []) = (h', empties)"
  shows "remove_all h' empties ks \<noteq> None"
proof -
  from assms(1) have "\<And>x. f (f x) = f x"
    by (auto simp: Sentence_mark_mine_idem Sentence_mark_safe_idem)
  from fold_mark_step [OF this, of ks h "[]"] assms(2)
  have "h' = marked f ks h" and "empties = filter (\<lambda>r. cells (h' r) = {||}) ks" by simp_all
  then show ?thesis by (simp add: remove_all_empty)
qed

text \<open>
  A loop over a Python set visits each element once, in an order that the language
  leaves open.  The loop bodies of the engine commute, so every order gives the result
  of the ascending order that the model uses.
\<close>

lemma fold_pull:
  assumes comm: "\<And>x y s. f x (f y s) = f y (f x s)"
  shows "x \<in> set ys \<Longrightarrow> fold f ys s = fold f (remove1 x ys) (f x s)"
proof (induction ys arbitrary: s)
  case Nil
  then show ?case by simp
next
  case (Cons y ys)
  show ?case
  proof (cases "x = y")
    case True
    then show ?thesis by simp
  next
    case False
    with Cons.prems have "x \<in> set ys" by simp
    from Cons.IH [OF this, of "f y s"] False show ?thesis by (simp add: comm [of x y])
  qed
qed

lemma fold_any_order:
  assumes comm: "\<And>x y s. f x (f y s) = f y (f x s)"
  shows "distinct xs \<Longrightarrow> distinct ys \<Longrightarrow> set xs = set ys \<Longrightarrow> fold f xs s = fold f ys s"
proof (induction xs arbitrary: ys s)
  case Nil
  then show ?case by simp
next
  case (Cons x xs)
  from Cons.prems have x: "x \<in> set ys" by auto
  from Cons.prems have "set xs = set (remove1 x ys)" by auto
  from Cons.IH [OF _ _ this, of "f x s"] Cons.prems
  have "fold f xs (f x s) = fold f (remove1 x ys) (f x s)" by simp
  with fold_pull [of f x ys s, OF comm x] show ?case by simp
qed

lemma fminus_two_commute: "(S :: 'a fset) |-| {|b|} |-| {|a|} = S |-| {|a|} |-| {|b|}"
  by auto

lemma Sentence_mark_mine_commute:
  "Sentence_mark_mine a (Sentence_mark_mine b x) = Sentence_mark_mine b (Sentence_mark_mine a x)"
  by (cases "a = b") (auto simp: Sentence_mark_mine_def fminus_two_commute [of _ b a])

lemma Sentence_mark_safe_commute:
  "Sentence_mark_safe a (Sentence_mark_safe b x) = Sentence_mark_safe b (Sentence_mark_safe a x)"
  by (cases "a = b") (auto simp: Sentence_mark_safe_def fminus_two_commute [of _ b a])

lemma Sentence_mark_mine_empty: "cells x = {||} \<Longrightarrow> Sentence_mark_mine a x = x"
  by (simp add: Sentence_mark_mine_def)

lemma Sentence_mark_safe_empty: "cells x = {||} \<Longrightarrow> Sentence_mark_safe a x = x"
  by (simp add: Sentence_mark_safe_def)

lemma marked_twice:
  assumes f: "\<And>x. cells (f x) = cells x |-| {|b|}" and g: "\<And>x. cells x = {||} \<Longrightarrow> g x = x"
  shows "marked g (filter (\<lambda>r. cells (f (h r)) \<noteq> {||}) ks) (marked f ks h)
         = (\<lambda>r. if r \<in> set ks then g (f (h r)) else h r)"
  by (rule ext) (auto simp: marked_def g)

lemma filter_twice:
  assumes f: "\<And>x. cells (f x) = cells x |-| {|b|}" and g: "\<And>x. cells (g x) = cells x |-| {|a|}"
  shows "filter (\<lambda>r. cells (g (marked f ks h r)) \<noteq> {||}) (filter (\<lambda>r. cells (f (h r)) \<noteq> {||}) ks)
         = filter (\<lambda>r. cells (h r) |-| {|a, b|} \<noteq> {||}) ks"
proof -
  have "filter (\<lambda>r. cells (g (marked f ks h r)) \<noteq> {||}) (filter (\<lambda>r. cells (f (h r)) \<noteq> {||}) ks)
      = filter (\<lambda>r. cells (f (h r)) \<noteq> {||} \<and> cells (g (marked f ks h r)) \<noteq> {||}) ks"
    by (simp add: conj_commute)
  also have "\<dots> = filter (\<lambda>r. cells (h r) |-| {|a, b|} \<noteq> {||}) ks"
    by (rule filter_cong) (auto simp: marked_def f g)
  finally show ?thesis .
qed

lemma mark_mine_commute: "mark_mine a (mark_mine b s) = mark_mine b (mark_mine a s)"
proof -
  have k: "knowledge (mark_mine a (mark_mine b s)) = knowledge (mark_mine b (mark_mine a s))"
    using filter_twice [of "Sentence_mark_mine b" b "Sentence_mark_mine a" a "knowledge s" "heap s"]
      filter_twice [of "Sentence_mark_mine a" a "Sentence_mark_mine b" b "knowledge s" "heap s"]
    by (simp add: mark_mine_eq finsert_commute)
  have h1: "heap (mark_mine a (mark_mine b s))
      = (\<lambda>r. if r \<in> set (knowledge s) then Sentence_mark_mine a (Sentence_mark_mine b (heap s r))
             else heap s r)"
    using marked_twice [of "Sentence_mark_mine b" b "Sentence_mark_mine a" "heap s" "knowledge s"]
    by (simp add: mark_mine_eq Sentence_mark_mine_empty)
  have h2: "heap (mark_mine b (mark_mine a s))
      = (\<lambda>r. if r \<in> set (knowledge s) then Sentence_mark_mine b (Sentence_mark_mine a (heap s r))
             else heap s r)"
    using marked_twice [of "Sentence_mark_mine a" a "Sentence_mark_mine b" "heap s" "knowledge s"]
    by (simp add: mark_mine_eq Sentence_mark_mine_empty)
  have h: "heap (mark_mine a (mark_mine b s)) = heap (mark_mine b (mark_mine a s))"
    by (subst h1, subst h2, subst Sentence_mark_mine_commute [of a b], rule refl)
  show ?thesis
    using k h by (simp add: mark_mine_eq finsert_commute)
qed

lemma mark_safe_commute: "mark_safe a (mark_safe b s) = mark_safe b (mark_safe a s)"
proof -
  have k: "knowledge (mark_safe a (mark_safe b s)) = knowledge (mark_safe b (mark_safe a s))"
    using filter_twice [of "Sentence_mark_safe b" b "Sentence_mark_safe a" a "knowledge s" "heap s"]
      filter_twice [of "Sentence_mark_safe a" a "Sentence_mark_safe b" b "knowledge s" "heap s"]
    by (simp add: mark_safe_eq finsert_commute)
  have h1: "heap (mark_safe a (mark_safe b s))
      = (\<lambda>r. if r \<in> set (knowledge s) then Sentence_mark_safe a (Sentence_mark_safe b (heap s r))
             else heap s r)"
    using marked_twice [of "Sentence_mark_safe b" b "Sentence_mark_safe a" "heap s" "knowledge s"]
    by (simp add: mark_safe_eq Sentence_mark_safe_empty)
  have h2: "heap (mark_safe b (mark_safe a s))
      = (\<lambda>r. if r \<in> set (knowledge s) then Sentence_mark_safe b (Sentence_mark_safe a (heap s r))
             else heap s r)"
    using marked_twice [of "Sentence_mark_safe a" a "Sentence_mark_safe b" "heap s" "knowledge s"]
    by (simp add: mark_safe_eq Sentence_mark_safe_empty)
  have h: "heap (mark_safe a (mark_safe b s)) = heap (mark_safe b (mark_safe a s))"
    by (subst h1, subst h2, subst Sentence_mark_safe_commute [of a b], rule refl)
  show ?thesis
    using k h by (simp add: mark_safe_eq finsert_commute)
qed

lemma exclude_step_commute:
  "exclude_step s a (exclude_step s b x) = exclude_step s b (exclude_step s a x)"
  by (cases x) (auto simp: exclude_step_def finsert_commute)


lemma fold_set_any_order:
  assumes comm: "\<And>x y s. f x (f y s) = f y (f x s)"
    and xs: "distinct xs" "set xs = fset S"
  shows "fold f (sorted_list_of_fset S) s = fold f xs s"
proof (rule fold_any_order [of f, OF comm])
  show "distinct (sorted_list_of_fset S)" by (simp add: sorted_list_of_fset.rep_eq)
  show "distinct xs" by (rule xs(1))
  show "set (sorted_list_of_fset S) = set xs" by (simp add: xs(2))
qed

lemma add_then_mark_safe: "mark_safe n (s\<lparr>safes := finsert n (safes s)\<rparr>) = mark_safe n s"
  by (simp add: mark_safe_eq)

lemma add_then_mark_mine: "mark_mine n (s\<lparr>mines := finsert n (mines s)\<rparr>) = mark_mine n s"
  by (simp add: mark_mine_eq)

lemma mms_step_any_order:
  assumes "distinct xs" and "set xs = fset (cells (heap s r))"
  shows "mms_step r s =
     (if len (cells (heap s r)) = count (heap s r) then fold mark_mine xs s
      else if count (heap s r) = 0 then fold mark_safe xs s
      else s)"
  using fold_set_any_order [of mark_mine xs "cells (heap s r)" s, OF mark_mine_commute assms]
    fold_set_any_order [of mark_safe xs "cells (heap s r)" s, OF mark_safe_commute assms]
  by (simp add: mms_step_def Let_def)

lemma new_sentence_any_order:
  assumes "distinct xs" and "set xs = fset (neighbor_cells s cell)"
  shows "new_sentence s cell cnt = fold (exclude_step s) xs ({||}, cnt)"
  unfolding new_sentence_def
  by (rule fold_set_any_order [of "exclude_step s", OF exclude_step_commute assms])

lemma add_knowledge_loops_any_order:
  assumes "distinct xs" and "set xs = fset cs"
  shows "fold (\<lambda>neighbor s. mark_safe neighbor (s\<lparr>safes := finsert neighbor (safes s)\<rparr>))
           (sorted_list_of_fset cs) s
         = fold (\<lambda>neighbor s. mark_safe neighbor (s\<lparr>safes := finsert neighbor (safes s)\<rparr>)) xs s"
    and "fold (\<lambda>neighbor s. mark_mine neighbor (s\<lparr>mines := finsert neighbor (mines s)\<rparr>))
           (sorted_list_of_fset cs) s
         = fold (\<lambda>neighbor s. mark_mine neighbor (s\<lparr>mines := finsert neighbor (mines s)\<rparr>)) xs s"
  using fold_set_any_order [of mark_safe xs cs s, OF mark_safe_commute assms]
    fold_set_any_order [of mark_mine xs cs s, OF mark_mine_commute assms]
  by (simp_all only: add_then_mark_safe add_then_mark_mine)

section \<open>Reachable states keep to the grid\<close>

lemma grid_cells_cong:
  "height s' = height s \<Longrightarrow> width s' = width s \<Longrightarrow> grid_cells s' = grid_cells s"
  by (simp add: grid_cells_def)

lemma grid_cells_grows: "grows s t \<Longrightarrow> grid_cells t = grid_cells s"
  by (rule grid_cells_cong) (simp_all add: grows_def)

lemma in_grid_mark_mine: "in_grid s \<Longrightarrow> in_grid (mark_mine c s)"
  unfolding in_grid_def grid_cells_grows [OF grows_mark_mine]
  by (auto simp: mark_mine_eq marked_def)

lemma in_grid_mark_safe: "in_grid s \<Longrightarrow> c |\<in>| grid_cells s \<Longrightarrow> in_grid (mark_safe c s)"
  unfolding in_grid_def grid_cells_grows [OF grows_mark_safe]
  by (auto simp: mark_safe_eq marked_def)

lemma in_grid_fold_mark_mine: "in_grid s \<Longrightarrow> in_grid (fold mark_mine cs s)"
  by (induction cs arbitrary: s) (simp_all add: in_grid_mark_mine)

lemma in_grid_fold_mark_safe:
  "in_grid s \<Longrightarrow> \<forall>c\<in>set cs. c |\<in>| grid_cells s \<Longrightarrow> in_grid (fold mark_safe cs s)"
proof (induction cs arbitrary: s)
  case Nil
  then show ?case by simp
next
  case (Cons c cs)
  from Cons.prems have "in_grid (mark_safe c s)" by (simp add: in_grid_mark_safe)
  moreover from Cons.prems have "\<forall>c'\<in>set cs. c' |\<in>| grid_cells (mark_safe c s)"
    by (simp add: grid_cells_grows [OF grows_mark_safe])
  ultimately show ?case using Cons.IH by simp
qed

lemma in_grid_mms_step:
  assumes g: "in_grid s" and l: "live_or_empty s r"
  shows "in_grid (mms_step r s)"
proof -
  from g l have "cells (heap s r) |\<subseteq>| grid_cells s"
    by (auto simp: in_grid_def live_or_empty_def)
  then have "\<forall>c\<in>set (sorted_list_of_fset (cells (heap s r))). c |\<in>| grid_cells s" by auto
  from in_grid_fold_mark_safe [OF g this] in_grid_fold_mark_mine [OF g] g
  show ?thesis by (simp add: mms_step_def Let_def)
qed

lemma in_grid_fold_mms_step:
  "in_grid s \<Longrightarrow> \<forall>r\<in>set rs. live_or_empty s r \<Longrightarrow> in_grid (fold mms_step rs s)"
proof (induction rs arbitrary: s)
  case Nil
  then show ?case by simp
next
  case (Cons r rs)
  from Cons.prems have g: "in_grid (mms_step r s)" by (simp add: in_grid_mms_step)
  from Cons.prems have "\<forall>r'\<in>set rs. live_or_empty (mms_step r s) r'"
    by (simp add: live_or_empty_mms_step)
  from Cons.IH [OF g this] show ?case by simp
qed

lemma in_grid_mark_mines_safes: "in_grid s \<Longrightarrow> in_grid (mark_mines_safes s)"
  unfolding mark_mines_safes_def
  by (rule in_grid_fold_mms_step) (simp_all add: live_or_empty_def)

lemma cells_infer_pair: "cells (fst (infer_pair r1 r2 x) r) |\<subseteq>| cells (fst x r)"
  by (cases x) (auto simp: infer_pair_eq resolved_def)

lemma cells_fold_infer_pair: "cells (fst (fold (infer_pair r1) rs x) r) |\<subseteq>| cells (fst x r)"
proof (induction rs arbitrary: x)
  case Nil
  show ?case by simp
next
  case (Cons r2 rs)
  from Cons.IH [of "infer_pair r1 r2 x"] cells_infer_pair [of r1 r2 x r] show ?case by auto
qed

lemma cells_infer_pairs_aux:
  "cells (fst (fold (\<lambda>r1. fold (infer_pair r1) ks) rs x) r) |\<subseteq>| cells (fst x r)"
proof (induction rs arbitrary: x)
  case Nil
  show ?case by simp
next
  case (Cons r1 rs)
  from Cons.IH [of "fold (infer_pair r1) ks x"] cells_fold_infer_pair [of r1 ks x r]
  show ?case by auto
qed

lemma cells_infer_pairs: "cells (fst (infer_pairs ks (h, d)) r) |\<subseteq>| cells (h r)"
  using cells_infer_pairs_aux [of ks ks "(h, d)" r] by (simp add: infer_pairs_def)

lemma in_grid_draw_pass: "in_grid s \<Longrightarrow> in_grid (snd (draw_pass s))"
proof -
  assume g: "in_grid s"
  obtain h drawn where ip: "infer_pairs (knowledge s) (heap s, False) = (h, drawn)"
    by (cases "infer_pairs (knowledge s) (heap s, False)")
  with cells_infer_pairs [of "knowledge s" "heap s" False]
  have "\<And>r. cells (h r) |\<subseteq>| cells (heap s r)" by simp
  with g have "\<forall>r\<in>set (knowledge s). cells (h r) |\<subseteq>| grid_cells s"
    by (meson in_grid_def fsubset_trans)
  with g have "in_grid (s\<lparr>heap := h\<rparr>)" by (simp add: in_grid_def grid_cells_def)
  from in_grid_mark_mines_safes [OF this] ip show ?thesis by (simp add: draw_pass_def)
qed

lemma in_grid_draw_loop: "in_grid s \<Longrightarrow> in_grid (draw_loop s)"
  by (rule draw_loop_invariant [where P = in_grid]) (simp_all add: in_grid_draw_pass)

lemma grid_cells_iff:
  "(a, b) |\<in>| grid_cells s \<longleftrightarrow> 0 \<le> a \<and> a < height s \<and> 0 \<le> b \<and> b < width s"
proof -
  have "(a, b) |\<in>| grid_cells s \<longleftrightarrow> a \<in> {0 .. height s - 1} \<and> b \<in> {0 .. width s - 1}"
    by (auto simp: grid_cells_def fset_of_list.rep_eq intro!: bexI [of _ a])
  then show ?thesis by auto
qed

lemma neighbor_cells_in_grid: "neighbor_cells s cell |\<subseteq>| grid_cells s"
proof
  fix c assume c: "c |\<in>| neighbor_cells s cell"
  obtain a b where ab: "c = (a, b)" by (cases c)
  from c ab have "0 \<le> a \<and> a < height s \<and> 0 \<le> b \<and> b < width s"
    by (cases cell) (auto simp: neighbor_cells_def fset_of_list.rep_eq split: if_splits)
  then show "c |\<in>| grid_cells s" by (simp add: ab grid_cells_iff)
qed

lemma exclude_step_cells: "fst (exclude_step s n x) |\<subseteq>| finsert n (fst x)"
  by (cases x) (auto simp: exclude_step_def)

lemma fold_exclude_step_cells: "fst (fold (exclude_step s) xs x) |\<subseteq>| fset_of_list xs |\<union>| fst x"
proof (induction xs arbitrary: x)
  case Nil
  show ?case by simp
next
  case (Cons n xs)
  from Cons.IH [of "exclude_step s n x"] exclude_step_cells [of s n x] show ?case by auto
qed

lemma new_sentence_cells: "fst (new_sentence s cell cnt) |\<subseteq>| neighbor_cells s cell"
  using fold_exclude_step_cells [of s "sorted_list_of_fset (neighbor_cells s cell)" "({||}, cnt)"]
  by (simp add: new_sentence_def)

lemma in_grid_add_knowledge:
  assumes g: "in_grid s" and cell: "cell |\<in>| grid_cells s"
  shows "in_grid (add_knowledge cell cnt s)"
proof -
  let ?s1 = "s\<lparr>moves_made := finsert cell (moves_made s)\<rparr>"
  let ?s2 = "mark_safe cell ?s1"
  obtain cs cnt' where ns: "new_sentence ?s2 cell cnt = (cs, cnt')"
    by (cases "new_sentence ?s2 cell cnt")
  define s3 where "s3 = (if cnt' = 0
      then fold (\<lambda>neighbor s. mark_safe neighbor (s\<lparr>safes := finsert neighbor (safes s)\<rparr>))
             (sorted_list_of_fset cs) ?s2
      else if len cs = cnt'
      then fold (\<lambda>neighbor s. mark_mine neighbor (s\<lparr>mines := finsert neighbor (mines s)\<rparr>))
             (sorted_list_of_fset cs) ?s2
      else ?s2)"
  define s4 where "s4 = s3\<lparr>knowledge := knowledge s3 @ [fresh (knowledge s3)],
      heap := (heap s3)(fresh (knowledge s3) := \<lparr>cells = cs, count = cnt'\<rparr>)\<rparr>"
  have ak: "add_knowledge cell cnt s = draw_loop (mark_mines_safes s4)"
    by (simp add: add_knowledge_def Let_def ns s3_def s4_def draw_interferences_def)
  have gc1: "grid_cells ?s1 = grid_cells s" by (simp add: grid_cells_def)
  from g have g1: "in_grid ?s1" by (simp add: in_grid_def gc1)
  from in_grid_mark_safe [OF g1] cell have g2: "in_grid ?s2" by (simp add: gc1)
  have gc2: "grid_cells ?s2 = grid_cells s"
    by (simp add: grid_cells_grows [OF grows_mark_safe] gc1)
  from new_sentence_cells [of ?s2 cell cnt] neighbor_cells_in_grid [of ?s2 cell] ns
  have cs: "cs |\<subseteq>| grid_cells ?s2" by auto
  then have all: "\<forall>c\<in>set (sorted_list_of_fset cs). c |\<in>| grid_cells ?s2" by auto
  have fm: "fold (\<lambda>neighbor s. mark_mine neighbor (s\<lparr>mines := finsert neighbor (mines s)\<rparr>))
      (sorted_list_of_fset cs) ?s2 = fold mark_mine (sorted_list_of_fset cs) ?s2"
    by (simp only: add_then_mark_mine)
  have fs: "fold (\<lambda>neighbor s. mark_safe neighbor (s\<lparr>safes := finsert neighbor (safes s)\<rparr>))
      (sorted_list_of_fset cs) ?s2 = fold mark_safe (sorted_list_of_fset cs) ?s2"
    by (simp only: add_then_mark_safe)
  have g3: "in_grid s3"
    unfolding s3_def fm fs
    using in_grid_fold_mark_safe [OF g2 all] in_grid_fold_mark_mine [OF g2] g2 by simp
  have "grows ?s2 s3"
    unfolding s3_def fm fs
    by (simp add: grows_refl grows_fold grows_mark_mine grows_mark_safe)
  then have gc3: "grid_cells s3 = grid_cells ?s2" by (rule grid_cells_grows)
  have gc4: "grid_cells s4 = grid_cells s3" by (simp add: s4_def grid_cells_def)
  have g4: "in_grid s4"
    unfolding in_grid_def gc4
  proof (intro conjI ballI)
    from g3 show "safes s4 |\<subseteq>| grid_cells s3" by (simp add: in_grid_def s4_def)
  next
    fix r assume "r \<in> set (knowledge s4)"
    then consider "r \<in> set (knowledge s3)" | "r = fresh (knowledge s3)"
      by (auto simp: s4_def)
    then show "cells (heap s4 r) |\<subseteq>| grid_cells s3"
    proof cases
      case 1
      with fresh_notin [of "knowledge s3"] have "heap s4 r = heap s3 r"
        by (auto simp: s4_def)
      with 1 g3 show ?thesis by (simp add: in_grid_def)
    next
      case 2
      then have "cells (heap s4 r) = cs" by (simp add: s4_def)
      with cs show ?thesis by (simp add: gc3)
    qed
  qed
  from in_grid_draw_loop [OF in_grid_mark_mines_safes [OF g4]] ak show ?thesis by simp
qed

lemma reachable_in_grid: "reachable s \<Longrightarrow> in_grid s"
proof (induction rule: reachable.induct)
  case (fresh_engine h w)
  show ?case by (simp add: in_grid_def init_def)
next
  case (observed s cell cnt)
  then show ?case by (simp add: in_grid_add_knowledge)
next
  case (safe_marked s c)
  then show ?case by (simp add: in_grid_mark_safe)
next
  case (mine_marked s c)
  then show ?case by (simp add: in_grid_mark_mine)
qed

lemma reachable_safes: "reachable s \<Longrightarrow> safes s |\<subseteq>| grid_cells s"
  using reachable_in_grid [of s] by (simp add: in_grid_def)

lemma sorted_list_of_fset_single: "sorted_list_of_fset {|x|} = [x]"
  by (simp add: sorted_list_of_fset.rep_eq)

lemma safes_mark_mine: "safes (mark_mine c s) = safes s"
  by (simp add: mark_mine_eq)

section \<open>The claims\<close>

text \<open>
  Claim C1.  The claim reads: the cell set of the sentence that \<open>add_knowledge\<close> builds
  excludes every neighbour in \<open>moves_made \<union> mines \<union> safes\<close>, and its count is the given
  count less one for each neighbour already known to be a mine.  The code tests
  \<open>neighbor not in (self.moves_made or self.mines or self.safes)\<close>, and \<open>moves_made\<close> is
  never empty at that point, so only the moves made are excluded.  On a fresh 1 x 3
  engine, after \<open>add_knowledge((0,0), 1)\<close> the cell \<open>(0,1)\<close> is a known mine; in the call
  \<open>add_knowledge((0,2), 1)\<close> it is a neighbour and stays in the new sentence, whose count
  stays 1: the sentence built is \<open>{(0,1)} = 1\<close>, where the claim asks for \<open>{} = 0\<close>.
\<close>

theorem new_sentence_keeps_known_mine:
  "(let s = add_knowledge (0, 0) 1 (init 1 3);
        s2 = mark_safe (0, 2) (s\<lparr>moves_made := finsert (0, 2) (moves_made s)\<rparr>)
    in mines s2 = {|(0, 1)|} \<and> (0, 1) |\<in>| neighbor_cells s2 (0, 2)
       \<and> new_sentence s2 (0, 2) 1 = ({|(0, 1)|}, 1))"
  by code_simp

text \<open>
  Claim C2.  The claim reads: after \<open>add_knowledge\<close>, \<open>mark_mine\<close> or \<open>mark_safe\<close> returns,
  every sentence of the knowledge base has a non-empty cell set and satisfies
  \<open>0 \<le> count \<le> |cells|\<close>.  On a fresh 1 x 1 engine \<open>add_knowledge((0,0), 0)\<close> appends the
  sentence \<open>{} = 0\<close>, which nothing removes; on a fresh 1 x 2 engine
  \<open>add_knowledge((0,0), 9)\<close> leaves the sentence \<open>{(0,1)} = 9\<close>.
\<close>

theorem sentence_bounds_violated:
  "sentences (add_knowledge (0, 0) 0 (init 1 1)) = [\<lparr>cells = {||}, count = 0\<rparr>]
   \<and> sentences (add_knowledge (0, 0) 9 (init 1 2)) = [\<lparr>cells = {|(0, 1)|}, count = 9\<rparr>]
   \<and> \<not> count_in_range \<lparr>cells = {|(0, 1)|}, count = 9\<rparr>"
  by code_simp

text \<open>
  Claim C2, amended.  After \<open>mark_mine\<close> or \<open>mark_safe\<close> returns, every sentence of the
  knowledge base has a non-empty cell set.  When the engine state is consistent with a
  placement \<open>M\<close> of the mines and the call is truthful for \<open>M\<close> (\<open>mark_mine\<close> of a cell in
  \<open>M\<close>, \<open>mark_safe\<close> of a cell outside \<open>M\<close>, \<open>add_knowledge\<close> of a cell outside \<open>M\<close> with
  the number of its neighbours in \<open>M\<close>), the state after the call is consistent with \<open>M\<close>
  again and every sentence of the knowledge base satisfies \<open>0 \<le> count \<le> |cells|\<close>.
\<close>

theorem sentence_bounds_when_consistent:
  "(\<forall>x\<in>set (sentences (mark_mine c1 s)). cells x \<noteq> {||})
   \<and> (\<forall>x\<in>set (sentences (mark_safe c2 s)). cells x \<noteq> {||})
   \<and> (consistent M s \<longrightarrow>
        (c1 |\<in>| M \<longrightarrow> consistent M (mark_mine c1 s)
            \<and> (\<forall>x\<in>set (sentences (mark_mine c1 s)). count_in_range x))
      \<and> (c2 |\<notin>| M \<longrightarrow> consistent M (mark_safe c2 s)
            \<and> (\<forall>x\<in>set (sentences (mark_safe c2 s)). count_in_range x))
      \<and> (cell |\<notin>| M \<and> cnt = len (neighbor_cells s cell |\<inter>| M) \<longrightarrow>
            consistent M (add_knowledge cell cnt s)
            \<and> (\<forall>x\<in>set (sentences (add_knowledge cell cnt s)). count_in_range x)))"
  using nonempty_mark_mine [of _ c1 s] nonempty_mark_safe [of _ c2 s]
    consistent_mark_mine [of M s c1] consistent_mark_safe [of M s c2]
    consistent_add_knowledge [of M s cell cnt]
    consistent_in_range [of M "mark_mine c1 s"] consistent_in_range [of M "mark_safe c2 s"]
    consistent_in_range [of M "add_knowledge cell cnt s"]
  by blast

theorem sentence_bounds_when_consistent_witness:
  "consistent {|(1, 1)|} (init 2 2)
   \<and> consistent {|(1, 1)|} (add_knowledge (0, 0) 1 (init 2 2))
   \<and> sentences (add_knowledge (0, 0) 1 (init 2 2)) = [\<lparr>cells = {|(0, 1), (1, 0), (1, 1)|}, count = 1\<rparr>]
   \<and> list_all count_in_range (sentences (add_knowledge (0, 0) 1 (init 2 2)))
   \<and> list_all count_in_range (sentences (mark_mine (1, 1) (init 2 2)))
   \<and> list_all count_in_range (sentences (mark_safe (0, 1) (init 2 2)))"
proof -
  define s where "s = init 2 2"
  define M :: "cell fset" where "M = {|(1, 1)|}"
  have c: "consistent M s" by (simp add: consistent_def s_def init_def M_def)
  have cell: "(0, 0) |\<notin>| M" "(1, 1) |\<in>| M" "(0, 1) |\<notin>| M" by (simp_all add: M_def)
  have cnt: "1 = len (neighbor_cells s (0, 0) |\<inter>| M)" unfolding s_def M_def by code_simp
  have sen: "sentences (add_knowledge (0, 0) 1 s) = [\<lparr>cells = {|(0, 1), (1, 0), (1, 1)|}, count = 1\<rparr>]"
    unfolding s_def by code_simp
  note inst = sentence_bounds_when_consistent [of "(1, 1)" s "(0, 1)" M "(0, 0)" 1]
  from inst c cell cnt have "consistent M (add_knowledge (0, 0) 1 s)"
    and "\<forall>x\<in>set (sentences (add_knowledge (0, 0) 1 s)). count_in_range x"
    and "\<forall>x\<in>set (sentences (mark_mine (1, 1) s)). count_in_range x"
    and "\<forall>x\<in>set (sentences (mark_safe (0, 1) s)). count_in_range x"
    by blast+
  with c sen show ?thesis unfolding s_def [symmetric] M_def [symmetric]
    by (simp only: list_all_iff simp_thms)
qed

text \<open>
  Claim C3.  The claim reads: after every public operation the known safe cells and the
  known mines are disjoint and the moves made are known safe cells.  Nothing in the code
  keeps a cell out of both sets: \<open>mark_safe((0,0))\<close> followed by \<open>mark_mine((0,0))\<close> puts
  \<open>(0,0)\<close> into both, and so does \<open>add_knowledge((0,1), 0)\<close> once \<open>(0,1)\<close> is a known mine.
\<close>

theorem known_sets_overlap:
  "(0, 0) |\<in>| safes (mark_mine (0, 0) (mark_safe (0, 0) (init 1 1)))
   \<and> (0, 0) |\<in>| mines (mark_mine (0, 0) (mark_safe (0, 0) (init 1 1)))
   \<and> (0, 1) |\<in>| safes (add_knowledge (0, 1) 0 (add_knowledge (0, 0) 1 (init 1 2)))
   \<and> (0, 1) |\<in>| mines (add_knowledge (0, 1) 0 (add_knowledge (0, 0) 1 (init 1 2)))"
  by code_simp

text \<open>
  Claim C3, amended.  Every public operation keeps \<open>moves_made \<subseteq> safes\<close>.  Disjointness
  of \<open>safes\<close> and \<open>mines\<close> is kept by both move selectors, by \<open>mark_mine\<close> of a cell that is
  not a known safe cell, by \<open>mark_safe\<close> of a cell that is not a known mine, and by
  \<open>add_knowledge\<close> when the state is consistent with a placement \<open>M\<close> of the mines and the
  observation is truthful for \<open>M\<close>.
\<close>

theorem known_sets_invariants:
  "(moves_made s |\<subseteq>| safes s \<longrightarrow>
        moves_made (mark_mine c1 s) |\<subseteq>| safes (mark_mine c1 s)
      \<and> moves_made (mark_safe c2 s) |\<subseteq>| safes (mark_safe c2 s)
      \<and> moves_made (add_knowledge cell cnt s) |\<subseteq>| safes (add_knowledge cell cnt s)
      \<and> moves_made (snd (make_safe_move k s)) |\<subseteq>| safes (snd (make_safe_move k s))
      \<and> moves_made (snd (make_random_move k s)) |\<subseteq>| safes (snd (make_random_move k s)))
   \<and> (safes s |\<inter>| mines s = {||} \<longrightarrow>
        safes (snd (make_safe_move k s)) |\<inter>| mines (snd (make_safe_move k s)) = {||}
      \<and> safes (snd (make_random_move k s)) |\<inter>| mines (snd (make_random_move k s)) = {||}
      \<and> (c1 |\<notin>| safes s \<longrightarrow> safes (mark_mine c1 s) |\<inter>| mines (mark_mine c1 s) = {||})
      \<and> (c2 |\<notin>| mines s \<longrightarrow> safes (mark_safe c2 s) |\<inter>| mines (mark_safe c2 s) = {||}))
   \<and> (consistent M s \<and> cell |\<notin>| M \<and> cnt = len (neighbor_cells s cell |\<inter>| M) \<longrightarrow>
        safes (add_knowledge cell cnt s) |\<inter>| mines (add_knowledge cell cnt s) = {||})"
proof (intro conjI impI)
  assume m: "moves_made s |\<subseteq>| safes s"
  from moves_subset_grows [OF grows_mark_mine m]
  show "moves_made (mark_mine c1 s) |\<subseteq>| safes (mark_mine c1 s)" .
  from moves_subset_grows [OF grows_mark_safe m]
  show "moves_made (mark_safe c2 s) |\<subseteq>| safes (mark_safe c2 s)" .
  from moves_subset_add_knowledge [OF m]
  show "moves_made (add_knowledge cell cnt s) |\<subseteq>| safes (add_knowledge cell cnt s)" .
  from m show "moves_made (snd (make_safe_move k s)) |\<subseteq>| safes (snd (make_safe_move k s))"
    by (simp add: make_safe_move_def Let_def)
  from m show "moves_made (snd (make_random_move k s)) |\<subseteq>| safes (snd (make_random_move k s))"
    by (simp add: make_random_move_def Let_def)
next
  assume d: "safes s |\<inter>| mines s = {||}"
  then show "safes (snd (make_safe_move k s)) |\<inter>| mines (snd (make_safe_move k s)) = {||}"
    by (simp add: make_safe_move_def Let_def)
  from d show "safes (snd (make_random_move k s)) |\<inter>| mines (snd (make_random_move k s)) = {||}"
    by (simp add: make_random_move_def Let_def)
  { assume "c1 |\<notin>| safes s"
    with d show "safes (mark_mine c1 s) |\<inter>| mines (mark_mine c1 s) = {||}"
      by (auto simp: mark_mine_eq) }
  { assume "c2 |\<notin>| mines s"
    with d show "safes (mark_safe c2 s) |\<inter>| mines (mark_safe c2 s) = {||}"
      by (auto simp: mark_safe_eq) }
next
  assume "consistent M s \<and> cell |\<notin>| M \<and> cnt = len (neighbor_cells s cell |\<inter>| M)"
  then have "consistent M (add_knowledge cell cnt s)" by (simp add: consistent_add_knowledge)
  then show "safes (add_knowledge cell cnt s) |\<inter>| mines (add_knowledge cell cnt s) = {||}"
    by (rule consistent_disjoint)
qed

theorem known_sets_invariants_witness:
  "(0, 0) |\<in>| safes (mark_mine (1, 1) (add_knowledge (0, 0) 1 (init 2 2)))
   \<and> (1, 1) |\<in>| mines (mark_mine (1, 1) (add_knowledge (0, 0) 1 (init 2 2)))
   \<and> consistent {|(1, 1)|} (mark_mine (1, 1) (add_knowledge (0, 0) 1 (init 2 2)))
   \<and> moves_made (add_knowledge (0, 1) 1 (mark_mine (1, 1) (add_knowledge (0, 0) 1 (init 2 2))))
        |\<subseteq>| safes (add_knowledge (0, 1) 1 (mark_mine (1, 1) (add_knowledge (0, 0) 1 (init 2 2))))
   \<and> safes (add_knowledge (0, 1) 1 (mark_mine (1, 1) (add_knowledge (0, 0) 1 (init 2 2))))
        |\<inter>| mines (add_knowledge (0, 1) 1 (mark_mine (1, 1) (add_knowledge (0, 0) 1 (init 2 2)))) = {||}
   \<and> safes (mark_mine (1, 1) (mark_mine (1, 1) (add_knowledge (0, 0) 1 (init 2 2))))
        |\<inter>| mines (mark_mine (1, 1) (mark_mine (1, 1) (add_knowledge (0, 0) 1 (init 2 2)))) = {||}
   \<and> safes (mark_safe (0, 1) (mark_mine (1, 1) (add_knowledge (0, 0) 1 (init 2 2))))
        |\<inter>| mines (mark_safe (0, 1) (mark_mine (1, 1) (add_knowledge (0, 0) 1 (init 2 2)))) = {||}"
proof -
  define M :: "cell fset" where "M = {|(1, 1)|}"
  define s where "s = mark_mine (1, 1) (add_knowledge (0, 0) 1 (init 2 2))"
  have c0: "consistent M (init 2 2)" by (simp add: consistent_def init_def M_def)
  have "(0, 0) |\<notin>| M" by (simp add: M_def)
  moreover have "1 = len (neighbor_cells (init 2 2) (0, 0) |\<inter>| M)" unfolding M_def by code_simp
  ultimately have "consistent M (add_knowledge (0, 0) 1 (init 2 2))"
    using c0 by (rule consistent_add_knowledge [rotated])
  then have c: "consistent M s" unfolding s_def by (rule consistent_mark_mine) (simp add: M_def)
  have pop: "(0, 0) |\<in>| safes s" "(1, 1) |\<in>| mines s" unfolding s_def by code_simp+
  have m: "moves_made s |\<subseteq>| safes s" unfolding s_def by code_simp
  from c have d: "safes s |\<inter>| mines s = {||}" by (rule consistent_disjoint)
  have n: "(1, 1) |\<notin>| safes s" "(0, 1) |\<notin>| mines s" unfolding s_def by code_simp+
  have cell: "(0, 1) |\<notin>| M" by (simp add: M_def)
  have cnt: "1 = len (neighbor_cells s (0, 1) |\<inter>| M)" unfolding s_def M_def by code_simp
  note inst = known_sets_invariants [of s "(1, 1)" "(0, 1)" "(0, 1)" 1 0 M]
  from inst c m d n cell cnt pop show ?thesis unfolding s_def [symmetric] M_def [symmetric]
    by blast
qed

text \<open>
  Claim C4.  The claim reads: \<open>Sentence.known_safes\<close> returns the sentence's cell set
  exactly when its count is 0, and the absent result otherwise.  The code tests
  \<open>self.cells == 0\<close>, a set against an integer, which is false for every sentence, so the
  method returns \<open>None\<close> also when the count is 0: for the sentence \<open>{(0,0)} = 0\<close> the
  result is \<open>None\<close>, where the claim (and the method's docstring) asks for \<open>{(0,0)}\<close>.
\<close>

theorem known_safes_count_zero_is_None:
  "count \<lparr>cells = {|(0, 0)|}, count = 0\<rparr> = 0
   \<and> known_safes \<lparr>cells = {|(0, 0)|}, count = 0\<rparr> = None"
  by (simp add: known_safes_def set_eq_int_def)

text \<open>
  Claim C5.  The claim reads: with the single sentence \<open>{(0,0),(0,1)} = 1\<close> in the
  knowledge base, once \<open>mark_mine\<close> has recorded \<open>(0,0)\<close> the sentence is \<open>{(0,1)} = 0\<close>
  and \<open>(0,1)\<close> is a known safe cell.  \<open>mark_mine\<close> updates the sentences and the known
  mines only: after it the sentence is \<open>{(0,1)} = 0\<close> but \<open>(0,1)\<close> is not a known safe
  cell, and after the resolution pass \<open>mark_mines_safes\<close> the sentence is gone.  No state
  has both.
\<close>

theorem mark_mine_alone_adds_no_safe:
  "sentences (mark_mine (0, 0)
      ((init 1 2)\<lparr>knowledge := [0], heap := (heap (init 1 2))(0 := \<lparr>cells = {|(0, 0), (0, 1)|}, count = 1\<rparr>)\<rparr>))
     = [\<lparr>cells = {|(0, 1)|}, count = 0\<rparr>]
   \<and> (0, 1) |\<notin>| safes (mark_mine (0, 0)
      ((init 1 2)\<lparr>knowledge := [0], heap := (heap (init 1 2))(0 := \<lparr>cells = {|(0, 0), (0, 1)|}, count = 1\<rparr>)\<rparr>))
   \<and> sentences (mark_mines_safes (mark_mine (0, 0)
      ((init 1 2)\<lparr>knowledge := [0], heap := (heap (init 1 2))(0 := \<lparr>cells = {|(0, 0), (0, 1)|}, count = 1\<rparr>)\<rparr>)))
     = []"
  by code_simp

text \<open>
  Claim C5, amended.  With the single sentence \<open>{(0,0),(0,1)} = 1\<close> in the knowledge base,
  \<open>mark_mine\<close> of \<open>(0,0)\<close> turns the sentence into \<open>{(0,1)} = 0\<close> and leaves the known safe
  cells as they were; the resolution pass \<open>mark_mines_safes\<close> that follows puts \<open>(0,1)\<close>
  into the known safe cells and removes the sentence, now empty, from the knowledge base.
\<close>

theorem scenario_mark_mine_then_resolve:
  assumes "knowledge s = [r]" and "heap s r = \<lparr>cells = {|(0, 0), (0, 1)|}, count = 1\<rparr>"
  shows "sentences (mark_mine (0, 0) s) = [\<lparr>cells = {|(0, 1)|}, count = 0\<rparr>]
         \<and> safes (mark_mine (0, 0) s) = safes s
         \<and> (0, 1) |\<in>| safes (mark_mines_safes (mark_mine (0, 0) s))
         \<and> sentences (mark_mines_safes (mark_mine (0, 0) s)) = []"
proof -
  let ?t = "mark_mine (0, 0) s"
  have k: "knowledge ?t = [r]" and h: "heap ?t r = \<lparr>cells = {|(0, 1)|}, count = 0\<rparr>"
    using assms by (auto simp: mark_mine_eq marked_def Sentence_mark_mine_def)
  have "len (cells (heap ?t r)) \<noteq> count (heap ?t r)"
    by (simp add: h len_def fcard_finsert_if)
  then have "mms_step r ?t = mark_safe (0, 1) ?t"
    by (simp add: mms_step_def Let_def h sorted_list_of_fset_single)
  then have m: "mark_mines_safes ?t = mark_safe (0, 1) ?t"
    by (simp add: mark_mines_safes_def k)
  have "(0, 1) |\<in>| safes (mark_safe (0, 1) ?t)" by (simp add: mark_safe_eq)
  moreover have "sentences (mark_safe (0, 1) ?t) = []"
    by (simp add: sentences_def mark_safe_eq k h)
  ultimately show ?thesis by (simp add: m sentences_def k h safes_mark_mine)
qed

theorem scenario_mark_mine_then_resolve_witness:
  "sentences (mark_mine (0, 0)
      ((init 2 2)\<lparr>moves_made := {|(1, 0)|}, safes := {|(1, 0)|}, knowledge := [0],
         heap := (heap (init 2 2))(0 := \<lparr>cells = {|(0, 0), (0, 1)|}, count = 1\<rparr>)\<rparr>))
     = [\<lparr>cells = {|(0, 1)|}, count = 0\<rparr>]
   \<and> safes (mark_mine (0, 0)
      ((init 2 2)\<lparr>moves_made := {|(1, 0)|}, safes := {|(1, 0)|}, knowledge := [0],
         heap := (heap (init 2 2))(0 := \<lparr>cells = {|(0, 0), (0, 1)|}, count = 1\<rparr>)\<rparr>))
     = safes
      ((init 2 2)\<lparr>moves_made := {|(1, 0)|}, safes := {|(1, 0)|}, knowledge := [0],
         heap := (heap (init 2 2))(0 := \<lparr>cells = {|(0, 0), (0, 1)|}, count = 1\<rparr>)\<rparr>)
   \<and> (0, 1) |\<in>| safes (mark_mines_safes (mark_mine (0, 0)
      ((init 2 2)\<lparr>moves_made := {|(1, 0)|}, safes := {|(1, 0)|}, knowledge := [0],
         heap := (heap (init 2 2))(0 := \<lparr>cells = {|(0, 0), (0, 1)|}, count = 1\<rparr>)\<rparr>)))
   \<and> sentences (mark_mines_safes (mark_mine (0, 0)
      ((init 2 2)\<lparr>moves_made := {|(1, 0)|}, safes := {|(1, 0)|}, knowledge := [0],
         heap := (heap (init 2 2))(0 := \<lparr>cells = {|(0, 0), (0, 1)|}, count = 1\<rparr>)\<rparr>))) = []"
  by (rule scenario_mark_mine_then_resolve [where r = 0]) simp_all



text \<open>
  Claim C7.  The claim reads: \<open>add_knowledge\<close> rejects a cell outside the grid, a cell
  already in \<open>moves_made\<close> and a negative or over-large count with an "invalid
  observation" failure.  The code has no check of its arguments and no failure result:
  each of these calls is processed like any other.
\<close>

theorem add_knowledge_accepts_invalid:
  "moves_made (add_knowledge (5, 5) 0 (init 2 2)) = {|(5, 5)|}
   \<and> safes (add_knowledge (5, 5) 0 (init 2 2)) = {|(5, 5)|}
   \<and> sentences (add_knowledge (0, 0) (- 1) (init 1 2)) = [\<lparr>cells = {|(0, 1)|}, count = - 1\<rparr>]
   \<and> sentences (add_knowledge (0, 0) 9 (init 1 2)) = [\<lparr>cells = {|(0, 1)|}, count = 9\<rparr>]
   \<and> (0, 0) |\<in>| moves_made (add_knowledge (0, 0) 9 (init 1 2))
   \<and> sentences (add_knowledge (0, 0) 9 (add_knowledge (0, 0) 9 (init 1 2)))
       = [\<lparr>cells = {|(0, 1)|}, count = 9\<rparr>, \<lparr>cells = {|(0, 1)|}, count = 9\<rparr>]"
  by code_simp

text \<open>
  Claim C7, amended.  \<open>add_knowledge\<close> validates nothing: for every cell, every count and
  every engine state the call is processed, and afterwards the cell is among the moves
  made and among the known safe cells.
\<close>

theorem add_knowledge_always_processes:
  "cell |\<in>| moves_made (add_knowledge cell cnt s) \<and> cell |\<in>| safes (add_knowledge cell cnt s)"
  using grows_add_knowledge [where s = s and cell = cell and cnt = cnt] by (auto simp: grows_def)

text \<open>
  Claim C8.  The claim reads, for every engine state: \<open>make_safe_move\<close> returns a member
  of \<open>safes - moves_made\<close> when that set is not empty and \<open>None\<close> when it is;
  \<open>make_random_move\<close> never returns a cell in \<open>moves_made\<close> or a known mine and returns
  \<open>None\<close> exactly when every grid cell is in \<open>moves_made \<union> mines\<close>; and when \<open>moves_made\<close>
  holds every grid cell both return \<open>None\<close>.  The last part fails: on a 1 x 1 engine,
  after \<open>mark_safe((3,3))\<close> and \<open>add_knowledge((0,0), 0)\<close> the only grid cell has been moved
  on, and \<open>make_safe_move\<close> returns \<open>(3,3)\<close>.
\<close>

theorem safe_move_outside_grid:
  "grid_cells (add_knowledge (0, 0) 0 (mark_safe (3, 3) (init 1 1)))
     |\<subseteq>| moves_made (add_knowledge (0, 0) 0 (mark_safe (3, 3) (init 1 1)))
   \<and> fst (make_safe_move 0 (add_knowledge (0, 0) 0 (mark_safe (3, 3) (init 1 1)))) = Some (3, 3)"
proof -
  define s where "s = add_knowledge (0, 0) 0 (mark_safe (3, 3) (init 1 1))"
  have grid: "grid_cells s |\<subseteq>| moves_made s" unfolding s_def by code_simp
  have mem: "(3, 3) |\<in>| safes s |-| moves_made s" unfolding s_def by code_simp
  have sub: "safes s |-| moves_made s |\<subseteq>| {|(3, 3)|}" unfolding s_def by code_simp
  from mem sub have eq: "safes s |-| moves_made s = {|(3, 3)|}" by auto
  from set_pop_member [of "{|(3, 3)|}" 0] have "set_pop 0 {|(3, 3)|} = (3, 3)" by simp
  with eq have "fst (make_safe_move 0 s) = Some (3, 3)"
    by (simp add: make_safe_move_def Let_def)
  with grid show ?thesis unfolding s_def [symmetric] by blast
qed

text \<open>
  Claim C8, amended.  For every engine state and every draw \<open>k\<close>: \<open>make_safe_move\<close> returns
  a member of \<open>safes - moves_made\<close> when that set is not empty and \<open>None\<close> when it is;
  \<open>make_random_move\<close> never returns a cell that is in \<open>moves_made\<close> or a known mine, and
  returns \<open>None\<close> exactly when every grid cell is in \<open>moves_made \<union> mines\<close>.  When
  \<open>moves_made\<close> holds every grid cell, \<open>make_random_move\<close> returns \<open>None\<close>, and
  \<open>make_safe_move\<close> returns \<open>None\<close> provided that the known safe cells are cells of the
  grid, as they are in every state that arises from a fresh engine by calls on grid cells.
\<close>

theorem move_selectors_correct:
  "(safes s |-| moves_made s \<noteq> {||} \<longrightarrow>
      (\<exists>c. fst (make_safe_move k s) = Some c \<and> c |\<in>| safes s |-| moves_made s))
   \<and> (safes s |-| moves_made s = {||} \<longrightarrow> fst (make_safe_move k s) = None)
   \<and> (\<forall>c. fst (make_random_move k s) = Some c \<longrightarrow>
         c |\<notin>| moves_made s \<and> c |\<notin>| mines s \<and> c |\<in>| grid_cells s)
   \<and> (fst (make_random_move k s) = None \<longleftrightarrow> grid_cells s |\<subseteq>| moves_made s |\<union>| mines s)
   \<and> (grid_cells s |\<subseteq>| moves_made s \<and> safes s |\<subseteq>| grid_cells s \<longrightarrow>
         fst (make_safe_move k s) = None \<and> fst (make_random_move k s) = None)
   \<and> (grid_cells s |\<subseteq>| moves_made s \<and> reachable s \<longrightarrow>
         fst (make_safe_move k s) = None \<and> fst (make_random_move k s) = None)
   \<and> (grid_cells s |\<subseteq>| moves_made s \<longrightarrow> fst (make_random_move k s) = None)"
proof (intro conjI impI allI)
  assume "safes s |-| moves_made s \<noteq> {||}"
  then show "\<exists>c. fst (make_safe_move k s) = Some c \<and> c |\<in>| safes s |-| moves_made s"
    using set_pop_member [of "safes s |-| moves_made s" k]
    by (simp add: make_safe_move_def Let_def)
next
  assume "safes s |-| moves_made s = {||}"
  then show "fst (make_safe_move k s) = None" by (simp add: make_safe_move_def)
next
  fix c assume c: "fst (make_random_move k s) = Some c"
  then have ne: "candidate_cells s \<noteq> []" and "c = random_choice k (candidate_cells s)"
    by (auto simp: make_random_move_def Let_def split: if_splits)
  with random_choice_member [OF ne, of k] have "c \<in> set (candidate_cells s)" by simp
  then have "c |\<notin>| moves_made s \<and> c |\<notin>| mines s \<and> c |\<in>| grid_cells s" by (simp add: set_candidate_cells)
  then show "c |\<notin>| moves_made s" "c |\<notin>| mines s" "c |\<in>| grid_cells s" by simp_all
next
  have "fst (make_random_move k s) = None \<longleftrightarrow> set (candidate_cells s) = {}"
    by (simp add: make_random_move_def Let_def)
  also have "\<dots> \<longleftrightarrow> grid_cells s |\<subseteq>| moves_made s |\<union>| mines s"
    by (auto simp: set_candidate_cells)
  finally show "fst (make_random_move k s) = None \<longleftrightarrow> grid_cells s |\<subseteq>| moves_made s |\<union>| mines s" .
next
  assume a: "grid_cells s |\<subseteq>| moves_made s \<and> safes s |\<subseteq>| grid_cells s"
  then have "safes s |-| moves_made s = {||}" by auto
  then show "fst (make_safe_move k s) = None" by (simp add: make_safe_move_def)
  from a have "set (candidate_cells s) = {}" by (auto simp: set_candidate_cells)
  then show "fst (make_random_move k s) = None" by (simp add: make_random_move_def Let_def)
next
  assume a: "grid_cells s |\<subseteq>| moves_made s \<and> reachable s"
  with reachable_safes [of s] have "safes s |-| moves_made s = {||}" by auto
  then show "fst (make_safe_move k s) = None" by (simp add: make_safe_move_def)
  from a have "set (candidate_cells s) = {}" by (auto simp: set_candidate_cells)
  then show "fst (make_random_move k s) = None" by (simp add: make_random_move_def Let_def)
next
  assume "grid_cells s |\<subseteq>| moves_made s"
  then have "set (candidate_cells s) = {}" by (auto simp: set_candidate_cells)
  then show "fst (make_random_move k s) = None" by (simp add: make_random_move_def Let_def)
qed



theorem move_selectors_correct_witness:
  "safes (add_knowledge (0, 0) 0 (init 1 2)) |-| moves_made (add_knowledge (0, 0) 0 (init 1 2)) \<noteq> {||}
   \<and> the (fst (make_safe_move 0 (add_knowledge (0, 0) 0 (init 1 2))))
         |\<in>| safes (add_knowledge (0, 0) 0 (init 1 2)) |-| moves_made (add_knowledge (0, 0) 0 (init 1 2))
   \<and> grid_cells (add_knowledge (0, 0) 0 (init 1 1)) |\<subseteq>| moves_made (add_knowledge (0, 0) 0 (init 1 1))
   \<and> safes (add_knowledge (0, 0) 0 (init 1 1)) |\<subseteq>| grid_cells (add_knowledge (0, 0) 0 (init 1 1))
   \<and> fst (make_safe_move 0 (add_knowledge (0, 0) 0 (init 1 1))) = None
   \<and> fst (make_random_move 0 (add_knowledge (0, 0) 0 (init 1 1))) = None"
proof -
  define a where "a = add_knowledge (0, 0) 0 (init 1 2)"
  define b where "b = add_knowledge (0, 0) 0 (init 1 1)"
  have "(0, 1) |\<in>| safes a |-| moves_made a" unfolding a_def by code_simp
  then have ne: "safes a |-| moves_made a \<noteq> {||}" by auto
  have grid: "grid_cells b |\<subseteq>| moves_made b" unfolding b_def by code_simp
  have safe: "safes b |\<subseteq>| grid_cells b" unfolding b_def by code_simp
  from move_selectors_correct [of a 0] ne
  have pick: "the (fst (make_safe_move 0 a)) |\<in>| safes a |-| moves_made a" by auto
  have "reachable (init 1 1)" by (rule reachable.fresh_engine)
  moreover have "(0, 0) |\<in>| grid_cells (init 1 1)" by code_simp
  ultimately have "reachable b" unfolding b_def by (rule reachable.observed)
  with move_selectors_correct [of b 0] grid
  have none: "fst (make_safe_move 0 b) = None \<and> fst (make_random_move 0 b) = None" by blast
  from ne pick grid safe none show ?thesis
    unfolding a_def [symmetric] b_def [symmetric] by blast
qed

text \<open>
  Claim C9.  The loop of \<open>draw_interferences\<close> terminates on every engine state: there
  is a pass \<open>n\<close>, reached through passes that all end with \<open>drawn\<close> set, that ends with
  \<open>drawn\<close> clear, and the procedure returns the state after that pass.  Each pass either
  strictly decreases the total number of cell memberships of the sentences in the
  knowledge base, or changes nothing and leaves the loop.  (Cell sets are finite sets
  and the knowledge base is a list, so the finiteness the claim asks for is in the
  types.)
\<close>

theorem draw_interferences_terminates:
  "(\<exists>n. (\<forall>m<n. fst (draw_pass (passes m s))) \<and> \<not> fst (draw_pass (passes n s))
        \<and> draw_interferences s = snd (draw_pass (passes n s)))
   \<and> (total_cells (snd (draw_pass s)) < total_cells s
        \<or> (snd (draw_pass s) = s \<and> \<not> fst (draw_pass s)))"
  using draw_loop_passes [of s] draw_pass_progress [of s] by (simp add: draw_interferences_def)

theorem draw_interferences_terminates_witness:
  "fst (draw_pass ((init 1 3)\<lparr>knowledge := [0, 1],
           heap := (heap (init 1 3))
             (0 := \<lparr>cells = {|(0, 0)|}, count = 1\<rparr>,
              1 := \<lparr>cells = {|(0, 0), (0, 1), (0, 2)|}, count = 2\<rparr>)\<rparr>))
   \<and> total_cells (snd (draw_pass ((init 1 3)\<lparr>knowledge := [0, 1],
           heap := (heap (init 1 3))
             (0 := \<lparr>cells = {|(0, 0)|}, count = 1\<rparr>,
              1 := \<lparr>cells = {|(0, 0), (0, 1), (0, 2)|}, count = 2\<rparr>)\<rparr>)))
       < total_cells ((init 1 3)\<lparr>knowledge := [0, 1],
           heap := (heap (init 1 3))
             (0 := \<lparr>cells = {|(0, 0)|}, count = 1\<rparr>,
              1 := \<lparr>cells = {|(0, 0), (0, 1), (0, 2)|}, count = 2\<rparr>)\<rparr>)"
proof -
  define s where "s = (init 1 3)\<lparr>knowledge := [0, 1],
           heap := (heap (init 1 3))
             (0 := \<lparr>cells = {|(0, 0)|}, count = 1\<rparr>,
              1 := \<lparr>cells = {|(0, 0), (0, 1), (0, 2)|}, count = 2\<rparr>)\<rparr>"
  have d: "fst (draw_pass s)" unfolding s_def by code_simp
  from draw_interferences_terminates [of s] d
  have "total_cells (snd (draw_pass s)) < total_cells s" by blast
  with d show ?thesis unfolding s_def [symmetric] by blast
qed

text \<open>
  Claim C10.  \<open>make_safe_move\<close> and \<open>make_random_move\<close> leave the engine state as it
  was: the moves made, the known safe cells and mines, the knowledge list, every sentence
  in the store and the grid dimensions.
\<close>

theorem move_selectors_keep_state:
  "snd (make_safe_move k s) = s \<and> snd (make_random_move k s) = s"
  by (simp add: make_safe_move_def make_random_move_def Let_def)

end
